theory Spec2Isabelle
  imports Main "HOL-Library.AList"
begin

section \<open>Raw extraction records\<close>

text \<open>
  \<^verbatim>\<open>page.evaluate\<close> hands the in-page script's result to Python as plain JSON data:
  \<^verbatim>\<open>None\<close>, booleans, numbers, strings, lists and dicts with string keys. A dict is an
  association list read with \<open>map_of\<close> (the first entry of a key counts). Numbers are
  the integers; floating point values are outside this development.
\<close>

datatype json =
    JNull
  | JBool bool
  | JNum int
  | JStr string
  | JArr "json list"
  | JObj "(string \<times> json) list"

text \<open>The exceptions that the code under study can raise or let through.\<close>

datatype error =
    ValueError string
  | KeyError string
  | AttributeError
  | TypeError
  | PlaywrightError string

text \<open>Python's truth value of a JSON value, as tested by \<^verbatim>\<open>if x:\<close> and \<^verbatim>\<open>not x\<close>.\<close>

fun truthy :: "json \<Rightarrow> bool" where
  "truthy JNull = False"
| "truthy (JBool b) = b"
| "truthy (JNum n) = (n \<noteq> 0)"
| "truthy (JStr s) = (s \<noteq> [])"
| "truthy (JArr xs) = (xs \<noteq> [])"
| "truthy (JObj kvs) = (kvs \<noteq> [])"

text \<open>
  Python's \<^verbatim>\<open>==\<close> on JSON values: \<^verbatim>\<open>True == 1\<close> and \<^verbatim>\<open>False == 0\<close> hold, lists
  compare element by element, dicts compare as mappings whatever the order of their keys.
\<close>

function (sequential) py_eq :: "json \<Rightarrow> json \<Rightarrow> bool" where
  "py_eq JNull JNull = True"
| "py_eq (JBool a) (JBool b) = (a = b)"
| "py_eq (JBool a) (JNum n) = ((if a then 1 else 0) = n)"
| "py_eq (JNum n) (JBool b) = (n = (if b then 1 else 0))"
| "py_eq (JNum m) (JNum n) = (m = n)"
| "py_eq (JStr s) (JStr t) = (s = t)"
| "py_eq (JArr xs) (JArr ys) = list_all2 py_eq xs ys"
| "py_eq (JObj a) (JObj b) =
     (set (map fst a) = set (map fst b) \<and>
      list_all (\<lambda>k. case (map_of a k, map_of b k) of
                        (Some v, Some w) \<Rightarrow> py_eq v w
                      | _ \<Rightarrow> False) (map fst a))"
| "py_eq _ _ = False"
  by pat_completeness auto
termination
proof (relation "measure (\<lambda>(a, b). size a)", goal_cases)
  case 1
  show ?case by simp
next
  case (2 xs ys x y)
  then show ?case by (induction xs) auto
next
  case (3 a b k u w v v')
  have below: "map_of kvs key = Some val \<Longrightarrow>
      size val < Suc (size_list (size_prod (\<lambda>_. 0) size) kvs)"
    for kvs :: "(string \<times> json) list" and key val
    by (induction kvs) (auto split: if_splits)
  from 3 show ?case by (auto dest!: sym [of "Some _"] below)
qed

text \<open>\<^verbatim>\<open>d.get(k, default)\<close> on a dict, \<^verbatim>\<open>x[k]\<close> on any value.\<close>

definition dict_get :: "(string \<times> json) list \<Rightarrow> string \<Rightarrow> json \<Rightarrow> json" where
  "dict_get kvs k dflt = (case map_of kvs k of None \<Rightarrow> dflt | Some v \<Rightarrow> v)"

fun getitem :: "json \<Rightarrow> string \<Rightarrow> error + json" where
  "getitem (JObj kvs) k = (case map_of kvs k of None \<Rightarrow> Inl (KeyError k) | Some v \<Rightarrow> Inr v)"
| "getitem _ k = Inl TypeError"

text \<open>
  What a \<^verbatim>\<open>for\<close> loop iterates over: the items of a list, the one-character strings of a
  string, the keys of a dict; anything else is not iterable.
\<close>

fun py_iter :: "json \<Rightarrow> error + json list" where
  "py_iter (JArr xs) = Inr xs"
| "py_iter (JStr s) = Inr (map (\<lambda>c. JStr [c]) s)"
| "py_iter (JObj kvs) = Inr (map (\<lambda>kv. JStr (fst kv)) kvs)"
| "py_iter _ = Inl TypeError"

text \<open>Sequencing of computations that may raise.\<close>

definition bind_err :: "error + 'a \<Rightarrow> ('a \<Rightarrow> error + 'b) \<Rightarrow> error + 'b" where
  "bind_err m f = (case m of Inl e \<Rightarrow> Inl e | Inr v \<Rightarrow> f v)"

section \<open>The node classes\<close>

text \<open>
  Modelled from the spec: the classes \<^verbatim>\<open>Coordinates\<close>, \<^verbatim>\<open>CoordinateSet\<close>,
  \<^verbatim>\<open>ViewportInfo\<close>, \<^verbatim>\<open>DOMBaseNode\<close>, \<^verbatim>\<open>DOMTextNode\<close> and \<^verbatim>\<open>DOMElementNode\<close> are
  imported by the service and declared outside it. The data model gives their fields, and
  decoding is "exact field-by-field copy": a constructor stores the values it is given.
  \<^verbatim>\<open>Coordinates(**d)\<close> needs a dict \<open>d\<close> that supplies \<open>x\<close> and \<open>y\<close>.
\<close>

datatype coordinates = Coordinates json json

fun mk_Coordinates :: "json \<Rightarrow> error + coordinates" where
  "mk_Coordinates (JObj kvs) =
     (case (map_of kvs ''x'', map_of kvs ''y'') of
        (Some vx, Some vy) \<Rightarrow> Inr (Coordinates vx vy)
      | _ \<Rightarrow> Inl TypeError)"
| "mk_Coordinates _ = Inl TypeError"

record CoordinateSet =
  top_left :: coordinates
  top_right :: coordinates
  bottom_left :: coordinates
  bottom_right :: coordinates
  center :: coordinates
  cs_width :: json
  cs_height :: json

record ViewportInfo =
  scroll_x :: json
  scroll_y :: json
  vi_width :: json
  vi_height :: json

text \<open>
  Objects live in a store and are known by their address: a reference to a node is the
  address of its cell, and two references denote the same object iff the addresses are
  equal. \<^verbatim>\<open>parent\<close> and \<^verbatim>\<open>children\<close> hold references.
\<close>

type_synonym addr = nat

record DOMBaseNode =
  is_visible :: json
  parent :: "addr option"

record DOMTextNode = DOMBaseNode +
  text_value :: json

record DOMElementNode = DOMBaseNode +
  tag_name :: json
  xpath :: json
  attributes :: json
  children :: "addr list"
  is_interactive :: json
  is_top_element :: json
  highlight_index :: json
  shadow_root :: json
  is_cross_oirigin_iframe :: json
  id_value :: json
  viewport_coordinates :: "CoordinateSet option"
  page_coordinates :: "CoordinateSet option"
  viewport_info :: "ViewportInfo option"

datatype node = Text DOMTextNode | Element DOMElementNode

type_synonym heap = "node list"

text \<open>\<^verbatim>\<open>isinstance(n, DOMElementNode)\<close> for the object at an address.\<close>

definition is_element :: "heap \<Rightarrow> addr \<Rightarrow> bool" where
  "is_element h a = (a < length h \<and> (case h ! a of Element e \<Rightarrow> True | Text t \<Rightarrow> False))"

definition parent_of :: "node \<Rightarrow> addr option" where
  "parent_of n = (case n of Text t \<Rightarrow> parent t | Element e \<Rightarrow> parent e)"

definition children_of :: "node \<Rightarrow> addr list" where
  "children_of n = (case n of Text t \<Rightarrow> [] | Element e \<Rightarrow> children e)"

text \<open>The assignments \<^verbatim>\<open>n.children = cs\<close> and \<^verbatim>\<open>n.parent = p\<close> on an element node.\<close>

definition set_children :: "heap \<Rightarrow> addr \<Rightarrow> addr list \<Rightarrow> heap" where
  "set_children h a cs =
     (if a < length h then
        (case h ! a of Element e \<Rightarrow> h[a := Element (e\<lparr>children := cs\<rparr>)] | Text t \<Rightarrow> h)
      else h)"

definition set_parent :: "heap \<Rightarrow> addr \<Rightarrow> addr option \<Rightarrow> heap" where
  "set_parent h a p =
     (if a < length h then
        (case h ! a of Element e \<Rightarrow> h[a := Element (e\<lparr>parent := p\<rparr>)] | Text t \<Rightarrow> h)
      else h)"

section \<open>The node reconstructor: \<^verbatim>\<open>_parse_node\<close>\<close>

text \<open>
  The three optional blocks of \<^verbatim>\<open>_parse_node\<close> that decode coordinates. Every
  subscript can raise, in the order in which the source evaluates them.
\<close>

definition parse_coordinate_set :: "json \<Rightarrow> error + CoordinateSet" where
  "parse_coordinate_set c =
     bind_err (bind_err (getitem c ''topLeft'') mk_Coordinates) (\<lambda>tl.
     bind_err (bind_err (getitem c ''topRight'') mk_Coordinates) (\<lambda>tr.
     bind_err (bind_err (getitem c ''bottomLeft'') mk_Coordinates) (\<lambda>bl.
     bind_err (bind_err (getitem c ''bottomRight'') mk_Coordinates) (\<lambda>br.
     bind_err (bind_err (getitem c ''center'') mk_Coordinates) (\<lambda>ce.
     bind_err (getitem c ''width'') (\<lambda>w.
     bind_err (getitem c ''height'') (\<lambda>ht.
       Inr \<lparr>top_left = tl, top_right = tr, bottom_left = bl, bottom_right = br,
            center = ce, cs_width = w, cs_height = ht\<rparr>)))))))"

definition parse_viewport_info :: "json \<Rightarrow> error + ViewportInfo" where
  "parse_viewport_info v =
     bind_err (getitem v ''scrollX'') (\<lambda>sx.
     bind_err (getitem v ''scrollY'') (\<lambda>sy.
     bind_err (getitem v ''width'') (\<lambda>w.
     bind_err (getitem v ''height'') (\<lambda>ht.
       Inr \<lparr>scroll_x = sx, scroll_y = sy, vi_width = w, vi_height = ht\<rparr>))))"

definition parse_optional :: "(string \<times> json) list \<Rightarrow> string \<Rightarrow> (json \<Rightarrow> error + 'a)
    \<Rightarrow> error + 'a option" where
  "parse_optional kvs k dec =
     (case map_of kvs k of
        None \<Rightarrow> Inr None
      | Some v \<Rightarrow> bind_err (dec v) (\<lambda>r. Inr (Some r)))"

text \<open>
  The element object as the constructor call of \<^verbatim>\<open>_parse_node\<close> builds it, with an empty
  children list. \<^verbatim>\<open>node_data['xpath']\<close> is the only argument that can raise.
\<close>

definition new_element :: "(string \<times> json) list \<Rightarrow> json \<Rightarrow> addr option \<Rightarrow> CoordinateSet option
    \<Rightarrow> CoordinateSet option \<Rightarrow> ViewportInfo option \<Rightarrow> error + DOMElementNode" where
  "new_element kvs tag par vc pc vi =
     bind_err (getitem (JObj kvs) ''xpath'') (\<lambda>xp.
       Inr \<lparr>is_visible = dict_get kvs ''isVisible'' (JBool False),
            parent = par,
            tag_name = tag,
            xpath = xp,
            attributes = dict_get kvs ''attributes'' (JObj []),
            children = [],
            is_interactive = dict_get kvs ''isInteractive'' (JBool False),
            is_top_element = dict_get kvs ''isTopElement'' (JBool False),
            highlight_index = dict_get kvs ''highlightIndex'' JNull,
            shadow_root = dict_get kvs ''shadowRoot'' (JBool False),
            is_cross_oirigin_iframe = dict_get kvs ''crossOriginIframe'' (JBool False),
            id_value = dict_get kvs ''id'' JNull,
            viewport_coordinates = vc,
            page_coordinates = pc,
            viewport_info = vi\<rparr>)"

text \<open>
  Everything \<^verbatim>\<open>_parse_node\<close> does for an element record before it turns to the
  children: read \<^verbatim>\<open>tagName\<close>, decode the coordinates, build the object.
\<close>

definition parse_element_head :: "(string \<times> json) list \<Rightarrow> addr option \<Rightarrow> error + DOMElementNode" where
  "parse_element_head kvs par =
     bind_err (getitem (JObj kvs) ''tagName'') (\<lambda>tag.
     bind_err (parse_optional kvs ''viewportCoordinates'' parse_coordinate_set) (\<lambda>vc.
     bind_err (parse_optional kvs ''pageCoordinates'' parse_coordinate_set) (\<lambda>pc.
     bind_err (parse_optional kvs ''viewport'' parse_viewport_info) (\<lambda>vi.
       new_element kvs tag par vc pc vi))))"

definition parse_text :: "(string \<times> json) list \<Rightarrow> addr option \<Rightarrow> error + DOMTextNode" where
  "parse_text kvs par =
     bind_err (getitem (JObj kvs) ''text'') (\<lambda>t.
     bind_err (getitem (JObj kvs) ''isVisible'') (\<lambda>v.
       Inr \<lparr>is_visible = v, parent = par, text_value = t\<rparr>))"

text \<open>Nesting depth of a JSON value, the measure of the reconstruction's recursion.\<close>

fun jdepth :: "json \<Rightarrow> nat" where
  "jdepth (JArr xs) = Suc (foldr (\<lambda>v. max (jdepth v)) xs 0)"
| "jdepth (JObj kvs) = Suc (foldr (\<lambda>kv. max (jdepth (snd kv))) kvs 0)"
| "jdepth _ = 0"

text \<open>
  \<^verbatim>\<open>_parse_node(node_data, parent)\<close> on a store: the result is the reference to the new
  node or \<^verbatim>\<open>None\<close>, with the store that holds the new objects. A new object takes the next
  free address. \<open>parse_children\<close> is the \<^verbatim>\<open>for child in ...\<close> loop, \<open>acc\<close> its list
  \<^verbatim>\<open>children\<close>.
\<close>

function parse_node :: "json \<Rightarrow> addr option \<Rightarrow> heap \<Rightarrow> error + (addr option \<times> heap)"
  and parse_children :: "json list \<Rightarrow> addr \<Rightarrow> addr list \<Rightarrow> heap \<Rightarrow> error + (addr list \<times> heap)"
where
  "parse_node node_data par h =
     (if \<not> truthy node_data then Inr (None, h)
      else case node_data of
        JObj kvs \<Rightarrow>
          if py_eq (dict_get kvs ''type'' JNull) (JStr ''TEXT_NODE'') then
            (case parse_text kvs par of
               Inl e \<Rightarrow> Inl e
             | Inr text_node \<Rightarrow> Inr (Some (length h), h @ [Text text_node]))
          else
            (case parse_element_head kvs par of
               Inl e \<Rightarrow> Inl e
             | Inr element_node \<Rightarrow>
                 (case py_iter (dict_get kvs ''children'' (JArr [])) of
                    Inl e \<Rightarrow> Inl e
                  | Inr cs \<Rightarrow>
                      (case parse_children cs (length h) [] (h @ [Element element_node]) of
                         Inl e \<Rightarrow> Inl e
                       | Inr (chn, h') \<Rightarrow> Inr (Some (length h), set_children h' (length h) chn))))
      | _ \<Rightarrow> Inl AttributeError)"
| "parse_children [] en acc h = Inr (acc, h)"
| "parse_children (child # rest) en acc h =
     (if child \<noteq> JNull then
        (case parse_node child (Some en) h of
           Inl e \<Rightarrow> Inl e
         | Inr (child_node, h') \<Rightarrow>
             (case child_node of
                Some c \<Rightarrow> parse_children rest en (acc @ [c]) h'
              | None \<Rightarrow> parse_children rest en acc h'))
      else parse_children rest en acc h)"
  by pat_completeness auto
termination
proof (relation "(\<lambda>x. case x of Inl (d, _) \<Rightarrow> jdepth d
                             | Inr (cs, _) \<Rightarrow> foldr (\<lambda>v. max (jdepth v)) cs 0)
                 <*mlex*> measure (\<lambda>x. case x of Inl _ \<Rightarrow> 0 | Inr (cs, _) \<Rightarrow> Suc (length cs))",
       goal_cases)
  case 1
  show ?case by (simp add: wf_mlex)
next
  case (2 node_data par h kvs element_node cs)
  have below: "map_of m k = Some v \<Longrightarrow> jdepth v \<le> foldr (\<lambda>kv. max (jdepth (snd kv))) m 0"
    for m :: "(string \<times> json) list" and k v
    by (induction m) (auto split: if_splits)
  have keys: "foldr (\<lambda>v. max (jdepth v)) (map (\<lambda>kv. JStr (fst kv)) m) 0 = 0"
    for m :: "(string \<times> json) list"
    by (induction m) auto
  have chars: "foldr (\<lambda>v. max (jdepth v)) (map (\<lambda>c. JStr [c]) s) 0 = 0" for s
    by (induction s) auto
  have "foldr (\<lambda>v. max (jdepth v)) cs 0 < jdepth (JObj kvs)"
  proof (cases "map_of kvs ''children''")
    case None
    with 2 show ?thesis by (simp add: dict_get_def)
  next
    case (Some v)
    with 2 have it: "py_iter v = Inr cs" by (simp add: dict_get_def)
    from below [OF Some] have "jdepth v < jdepth (JObj kvs)" by simp
    moreover from it have "foldr (\<lambda>v. max (jdepth v)) cs 0 \<le> jdepth v"
      by (cases v) (auto simp: keys chars)
    ultimately show ?thesis by simp
  qed
  with 2 show ?case by (simp add: mlex_prod_def)
next
  case 3
  then show ?case by (auto simp: mlex_prod_def)
next
  case 4
  then show ?case by (auto simp: mlex_prod_def)
next
  case 5
  then show ?case by (auto simp: mlex_prod_def)
next
  case 6
  then show ?case by (auto simp: mlex_prod_def)
qed

declare parse_node.simps [simp del]

section \<open>The page\<close>

text \<open>
  The three extraction parameters, passed unchanged to every execution context. The page
  is the external collaborator: \<open>evaluate\<close> is what \<^verbatim>\<open>page.evaluate(js_code, args)\<close>
  returns or raises, \<open>frame\<close> is \<^verbatim>\<open>page.frame(name)\<close>, which gives no frame or a frame,
  and a frame is what its \<^verbatim>\<open>evaluate(js_code, args)\<close> returns or raises.
\<close>

record args =
  doHighlightElements :: bool
  focusHighlightIndex :: int
  viewportExpansion :: int

record page =
  evaluate :: "args \<Rightarrow> error + json"
  frame :: "json \<Rightarrow> (args \<Rightarrow> error + json) option"

text \<open>
  What a build does to the outside world, in order: the evaluations inside frames, each
  with the address of the iframe element it is made for, and the lines printed.
\<close>

datatype event = FrameEvaluate addr | Print string

section \<open>The tree walks\<close>

text \<open>
  The walks follow \<^verbatim>\<open>children\<close> references through the store. Their first argument
  bounds the depth of the recursion; the value \<open>None\<close> says that the walk got no result
  within the bound, or met a reference to no element. The callers give the size of the
  store as the bound.
\<close>

fun find_cross_origin_iframes :: "nat \<Rightarrow> heap \<Rightarrow> addr \<Rightarrow> addr list option" where
  "find_cross_origin_iframes 0 h node = None"
| "find_cross_origin_iframes (Suc k) h node =
     (if node < length h then
        (case h ! node of
           Element e \<Rightarrow>
             fold (\<lambda>child r.
                     case r of
                       None \<Rightarrow> None
                     | Some iframes \<Rightarrow>
                         if is_element h child then
                           (case find_cross_origin_iframes k h child of
                              None \<Rightarrow> None
                            | Some sub \<Rightarrow> Some (iframes @ sub))
                         else Some iframes)
               (children e)
               (Some (if truthy (is_cross_oirigin_iframe e) then [node] else []))
         | Text t \<Rightarrow> None)
      else None)"

text \<open>
  \<^verbatim>\<open>find_iframe_node\<close>, the search for the first element in pre-order whose \<^verbatim>\<open>id\<close>
  equals the iframe's. The inner option is its \<^verbatim>\<open>Optional[DOMElementNode]\<close>; a node
  object is true in a condition, so the loop returns at the first child that gives one.
\<close>

fun find_iframe_node :: "nat \<Rightarrow> heap \<Rightarrow> json \<Rightarrow> addr \<Rightarrow> addr option option" where
  "find_iframe_node 0 h iframe_id node = None"
| "find_iframe_node (Suc k) h iframe_id node =
     (if node < length h then
        (case h ! node of
           Element e \<Rightarrow>
             if py_eq (id_value e) iframe_id then Some (Some node)
             else
               fold (\<lambda>child r.
                       case r of
                         Some None \<Rightarrow>
                           if is_element h child then find_iframe_node k h iframe_id child
                           else Some None
                       | _ \<Rightarrow> r)
                 (children e)
                 (Some None)
         | Text t \<Rightarrow> None)
      else None)"

section \<open>The selector map: \<^verbatim>\<open>_create_selector_map\<close>\<close>

text \<open>
  A Python dict keeps one entry per class of equal keys, in the order of first insertion;
  lists and dicts cannot be keys. \<open>hash_key\<close> gives the class of a JSON value
  (\<^verbatim>\<open>True\<close> and \<^verbatim>\<open>1\<close> are the same key), and the dict is an association list that
  \<open>AList.update\<close> writes.
\<close>

datatype key = KNone | KNum int | KStr string

fun hash_key :: "json \<Rightarrow> error + key" where
  "hash_key JNull = Inr KNone"
| "hash_key (JBool b) = Inr (KNum (if b then 1 else 0))"
| "hash_key (JNum n) = Inr (KNum n)"
| "hash_key (JStr s) = Inr (KStr s)"
| "hash_key (JArr xs) = Inl TypeError"
| "hash_key (JObj kvs) = Inl TypeError"

type_synonym selector_map = "(key \<times> addr) list"

definition index_node :: "DOMElementNode \<Rightarrow> addr \<Rightarrow> selector_map \<Rightarrow> error + selector_map" where
  "index_node e node selector_map =
     (if highlight_index e \<noteq> JNull then
        bind_err (hash_key (highlight_index e)) (\<lambda>k. Inr (AList.update k node selector_map))
      else Inr selector_map)"

fun process_node :: "nat \<Rightarrow> heap \<Rightarrow> addr \<Rightarrow> selector_map \<Rightarrow> (error + selector_map) option" where
  "process_node 0 h node selector_map = None"
| "process_node (Suc k) h node selector_map =
     (if node < length h then
        (case h ! node of
           Element e \<Rightarrow>
             (case index_node e node selector_map of
                Inl err \<Rightarrow> Some (Inl err)
              | Inr m \<Rightarrow>
                  fold (\<lambda>child r.
                          case r of
                            Some (Inr m') \<Rightarrow> process_node k h child m'
                          | _ \<Rightarrow> r)
                    (children e)
                    (Some (Inr m)))
         | Text t \<Rightarrow> Some (Inr selector_map))
      else None)"

definition create_selector_map :: "heap \<Rightarrow> addr \<Rightarrow> (error + selector_map) option" where
  "create_selector_map h element_tree = process_node (length h) h element_tree []"

section \<open>The build: \<^verbatim>\<open>_build_dom_tree\<close> and \<^verbatim>\<open>get_clickable_elements\<close>\<close>

text \<open>
  The splice at the end of one turn of the resolution loop: with the node found for the
  iframe's \<^verbatim>\<open>id\<close>, the new subtree gets it as parent and becomes its only child.
\<close>

definition splice :: "heap \<Rightarrow> addr \<Rightarrow> addr \<Rightarrow> heap" where
  "splice h iframe_node iframe_dom =
     (if is_element h iframe_dom then
        set_children (set_parent h iframe_dom (Some iframe_node)) iframe_node [iframe_dom]
      else h)"

text \<open>
  One turn of \<^verbatim>\<open>for iframe in cross_origin_iframes\<close>, on the store and the trace of
  events so far. An exception ends the turn with the events that came before it.
\<close>

definition resolve_iframe :: "args \<Rightarrow> page \<Rightarrow> addr \<Rightarrow> addr \<Rightarrow> heap \<Rightarrow> event list
    \<Rightarrow> ((error + heap) \<times> event list) option" where
  "resolve_iframe a pg html_to_dict iframe h tr =
     (if iframe < length h then
        (case h ! iframe of
           Element ifr \<Rightarrow>
             (case frame pg (id_value ifr) of
                None \<Rightarrow> Some (Inr h, tr)
              | Some fr \<Rightarrow>
                  (case fr a of
                     Inl e \<Rightarrow> Some (Inl e, tr @ [FrameEvaluate iframe])
                   | Inr result \<Rightarrow>
                       if truthy result then
                         (case parse_node result None h of
                            Inl e \<Rightarrow> Some (Inl e, tr @ [FrameEvaluate iframe])
                          | Inr (None, h1) \<Rightarrow> Some (Inr h1, tr @ [FrameEvaluate iframe])
                          | Inr (Some iframe_dom, h1) \<Rightarrow>
                              if truthy (id_value ifr) then
                                (case find_iframe_node (length h1) h1 (id_value ifr) html_to_dict of
                                   None \<Rightarrow> None
                                 | Some None \<Rightarrow> Some (Inr h1, tr @ [FrameEvaluate iframe])
                                 | Some (Some iframe_node) \<Rightarrow>
                                     Some (Inr (splice h1 iframe_node iframe_dom),
                                           tr @ [FrameEvaluate iframe]))
                              else Some (Inr h1, tr @ [FrameEvaluate iframe]))
                       else Some (Inr h, tr @ [FrameEvaluate iframe])))
         | Text t \<Rightarrow> None)
      else None)"

fun resolve_all :: "args \<Rightarrow> page \<Rightarrow> addr \<Rightarrow> addr list \<Rightarrow> heap \<Rightarrow> event list
    \<Rightarrow> ((error + heap) \<times> event list) option" where
  "resolve_all a pg html_to_dict [] h tr = Some (Inr h, tr)"
| "resolve_all a pg html_to_dict (iframe # rest) h tr =
     (case resolve_iframe a pg html_to_dict iframe h tr of
        None \<Rightarrow> None
      | Some (Inl e, tr') \<Rightarrow> Some (Inl e, tr')
      | Some (Inr h', tr') \<Rightarrow> resolve_all a pg html_to_dict rest h' tr')"

text \<open>
  \<^verbatim>\<open>_build_dom_tree\<close>. The \<^verbatim>\<open>else\<close> of the \<^verbatim>\<open>for\<close> loop runs when the loop ends without
  \<^verbatim>\<open>break\<close>, and the loop has none. The result is the outcome (an exception, or the root
  with the store) and the trace of events; \<open>None\<close> only if a walk gave no result.
\<close>

definition build_dom_tree :: "args \<Rightarrow> page
    \<Rightarrow> ((error + addr \<times> heap) \<times> event list) option" where
  "build_dom_tree a pg =
     (case evaluate pg a of
        Inl e \<Rightarrow> Some (Inl e, [])
      | Inr eval_page \<Rightarrow>
          (case parse_node eval_page None [] of
             Inl e \<Rightarrow> Some (Inl e, [])
           | Inr (None, h) \<Rightarrow> Some (Inl (ValueError ''Failed to parse HTML to dictionary''), [])
           | Inr (Some html_to_dict, h) \<Rightarrow>
               if \<not> is_element h html_to_dict then
                 Some (Inl (ValueError ''Failed to parse HTML to dictionary''), [])
               else
                 (case find_cross_origin_iframes (length h) h html_to_dict of
                    None \<Rightarrow> None
                  | Some cross_origin_iframes \<Rightarrow>
                      (case resolve_all a pg html_to_dict cross_origin_iframes h [] of
                         None \<Rightarrow> None
                       | Some (Inl e, tr) \<Rightarrow> Some (Inl e, tr)
                       | Some (Inr h', tr) \<Rightarrow>
                           Some (Inr (html_to_dict, h'), tr @ [Print ''Iframe not found''])))))"

record DOMState =
  element_tree :: addr
  selector_map :: selector_map

text \<open>
  \<^verbatim>\<open>get_clickable_elements\<close>: the snapshot comes with the store its references point
  into.
\<close>

definition get_clickable_elements :: "args \<Rightarrow> page
    \<Rightarrow> ((error + DOMState \<times> heap) \<times> event list) option" where
  "get_clickable_elements a pg =
     (case build_dom_tree a pg of
        None \<Rightarrow> None
      | Some (Inl e, tr) \<Rightarrow> Some (Inl e, tr)
      | Some (Inr (root, h), tr) \<Rightarrow>
          (case create_selector_map h root of
             None \<Rightarrow> None
           | Some (Inl e) \<Rightarrow> Some (Inl e, tr)
           | Some (Inr m) \<Rightarrow> Some (Inr (\<lparr>element_tree = root, selector_map = m\<rparr>, h), tr)))"

section \<open>Notions used in the statements\<close>

text \<open>
  A record is a text record if \<^verbatim>\<open>_parse_node\<close> takes its first branch on it. A node
  \<open>reconstructs\<close> a record under a parent if it is the object that \<^verbatim>\<open>_parse_node\<close>
  builds from the record's own fields with that parent, whatever its children list holds.
\<close>

definition is_text_record :: "(string \<times> json) list \<Rightarrow> bool" where
  "is_text_record kvs = py_eq (dict_get kvs ''type'' JNull) (JStr ''TEXT_NODE'')"

definition reconstructs :: "node \<Rightarrow> json \<Rightarrow> addr option \<Rightarrow> bool" where
  "reconstructs n d par =
     (case d of
        JObj kvs \<Rightarrow>
          if is_text_record kvs then
            (case parse_text kvs par of Inr t \<Rightarrow> n = Text t | Inl e \<Rightarrow> False)
          else
            (case parse_element_head kvs par of
               Inr e \<Rightarrow> n = Element (e\<lparr>children := children_of n\<rparr>)
             | Inl e \<Rightarrow> False)
      | _ \<Rightarrow> False)"

text \<open>
  The store is well formed if no children list repeats a reference and every reference in
  a children list points to a younger object of the store whose \<^verbatim>\<open>parent\<close> points
  back. A node is reachable from a root through children lists. A node matches an
  \<^verbatim>\<open>id\<close> if it is an element whose own \<^verbatim>\<open>id\<close> is equal to it in Python's sense.
\<close>

definition wf_heap :: "heap \<Rightarrow> bool" where
  "wf_heap h =
     (\<forall>a<length h.
        distinct (children_of (h ! a)) \<and>
        (\<forall>c\<in>set (children_of (h ! a)).
           a < c \<and> c < length h \<and> parent_of (h ! c) = Some a))"

inductive reachable :: "heap \<Rightarrow> addr \<Rightarrow> addr \<Rightarrow> bool" for h :: heap and root :: addr where
  start: "reachable h root root"
| step: "reachable h root a \<Longrightarrow> a < length h \<Longrightarrow> c \<in> set (children_of (h ! a)) \<Longrightarrow>
     reachable h root c"

definition matches_id :: "heap \<Rightarrow> json \<Rightarrow> addr \<Rightarrow> bool" where
  "matches_id h iframe_id x =
     (case h ! x of Element e \<Rightarrow> py_eq (id_value e) iframe_id | Text t \<Rightarrow> False)"

text \<open>
  The lines a trace prints, and the nodes that discovery collects: the elements whose
  cross-origin flag is true in a condition.
\<close>

fun printed :: "event list \<Rightarrow> string list" where
  "printed [] = []"
| "printed (Print s # es) = s # printed es"
| "printed (FrameEvaluate i # es) = printed es"

definition flagged :: "heap \<Rightarrow> addr \<Rightarrow> bool" where
  "flagged h x =
     (case h ! x of Element e \<Rightarrow> truthy (is_cross_oirigin_iframe e) | Text t \<Rightarrow> False)"

text \<open>
  The nodes of a tree in pre-order, walked like the other walks; the key under which a
  node is indexed, if it is an element with a non-null index that can be a dict key; the
  entries that a list of nodes contributes, in order; one step of the indexing on a
  result that may already be an exception.
\<close>

fun tree_nodes :: "nat \<Rightarrow> heap \<Rightarrow> addr \<Rightarrow> addr list option" where
  "tree_nodes 0 h node = None"
| "tree_nodes (Suc k) h node =
     (if node < length h then
        (case h ! node of
           Element e \<Rightarrow>
             fold (\<lambda>child r.
                     case r of
                       None \<Rightarrow> None
                     | Some ns \<Rightarrow>
                         (case tree_nodes k h child of
                            None \<Rightarrow> None
                          | Some sub \<Rightarrow> Some (ns @ sub)))
               (children e) (Some [node])
         | Text t \<Rightarrow> Some [node])
      else None)"

definition preorder :: "heap \<Rightarrow> addr \<Rightarrow> addr list option" where
  "preorder h root = tree_nodes (length h) h root"

definition indexed :: "heap \<Rightarrow> addr \<Rightarrow> bool" where
  "indexed h n = (case h ! n of Element e \<Rightarrow> highlight_index e \<noteq> JNull | Text t \<Rightarrow> False)"

definition index_key :: "heap \<Rightarrow> addr \<Rightarrow> key option" where
  "index_key h n =
     (case h ! n of
        Element e \<Rightarrow>
          if highlight_index e \<noteq> JNull then
            (case hash_key (highlight_index e) of Inr k \<Rightarrow> Some k | Inl err \<Rightarrow> None)
          else None
      | Text t \<Rightarrow> None)"

fun index_entries :: "heap \<Rightarrow> addr list \<Rightarrow> (key \<times> addr) list" where
  "index_entries h [] = []"
| "index_entries h (n # ns) =
     (case index_key h n of
        None \<Rightarrow> index_entries h ns
      | Some k \<Rightarrow> (k, n) # index_entries h ns)"

definition index_step :: "heap \<Rightarrow> addr \<Rightarrow> error + selector_map \<Rightarrow> error + selector_map" where
  "index_step h n r =
     (case r of
        Inl err \<Rightarrow> Inl err
      | Inr m \<Rightarrow> (case h ! n of Element e \<Rightarrow> index_node e n m | Text t \<Rightarrow> Inr m))"


definition id_of :: "node \<Rightarrow> json option" where
  "id_of n = (case n of Element e \<Rightarrow> Some (id_value e) | Text t \<Rightarrow> None)"

text \<open>Records and parameters for the worked examples.\<close>

definition example_args :: args where
  "example_args = \<lparr>doHighlightElements = True, focusHighlightIndex = - 1, viewportExpansion = 0\<rparr>"

definition element_record :: "string \<Rightarrow> (string \<times> json) list \<Rightarrow> json" where
  "element_record tag extra = JObj ([(''tagName'', JStr tag), (''xpath'', JStr (''//'' @ tag))] @ extra)"

definition text_record :: "string \<Rightarrow> json" where
  "text_record s =
     JObj [(''type'', JStr ''TEXT_NODE''), (''text'', JStr s), (''isVisible'', JBool True)]"

definition five_children :: "json list" where
  "five_children =
     [element_record ''a'' [], JNull, text_record ''t'', JNull, element_record ''b'' []]"

definition example_main :: json where
  "example_main =
     element_record ''body''
       [(''children'', JArr
          [element_record ''button'' [(''isInteractive'', JBool True), (''highlightIndex'', JNum 0)],
           text_record ''Hello'',
           element_record ''iframe'' [(''crossOriginIframe'', JBool True), (''id'', JStr ''f1'')]])]"

definition example_frame_doc :: json where
  "example_frame_doc =
     element_record ''body''
       [(''children'', JArr [element_record ''a'' [(''highlightIndex'', JNum 1)]])]"

definition example_page :: page where
  "example_page =
     \<lparr>evaluate = \<lambda>_. Inr example_main,
      frame = \<lambda>i. if i = JStr ''f1'' then Some (\<lambda>_. Inr example_frame_doc) else None\<rparr>"

definition iframe_record :: "string \<Rightarrow> json list \<Rightarrow> json" where
  "iframe_record fid cs =
     element_record ''iframe''
       [(''crossOriginIframe'', JBool True), (''id'', JStr fid), (''children'', JArr cs)]"

definition nested_main :: json where
  "nested_main = element_record ''body'' [(''children'', JArr [iframe_record ''f1'' []])]"

definition nested_frame_doc :: json where
  "nested_frame_doc = element_record ''body'' [(''children'', JArr [iframe_record ''f2'' []])]"

definition nested_page :: page where
  "nested_page =
     \<lparr>evaluate = \<lambda>_. Inr nested_main,
      frame = \<lambda>i. if i = JStr ''f1'' then Some (\<lambda>_. Inr nested_frame_doc)
                   else if i = JStr ''f2'' then Some (\<lambda>_. Inr example_frame_doc)
                   else None\<rparr>"

definition dead_page :: page where
  "dead_page = \<lparr>evaluate = \<lambda>_. Inr example_main, frame = \<lambda>_. None\<rparr>"

definition old_child_main :: json where
  "old_child_main =
     element_record ''body'' [(''children'', JArr [iframe_record ''f1'' [text_record ''old'']])]"

definition indexed_main :: json where
  "indexed_main =
     element_record ''body''
       [(''children'', JArr
          [element_record ''button'' [(''highlightIndex'', JNum 0)],
           text_record ''Hello'',
           element_record ''a'' [(''highlightIndex'', JNum 1)]])]"

definition duplicate_main :: json where
  "duplicate_main =
     element_record ''body''
       [(''children'', JArr
          [element_record ''button'' [(''highlightIndex'', JNum 0)],
           element_record ''a'' [(''highlightIndex'', JNum 0)]])]"

definition page_returning :: "json \<Rightarrow> page" where
  "page_returning raw = \<lparr>evaluate = \<lambda>_. Inr raw, frame = \<lambda>_. None\<rparr>"

definition page_with_frame :: "json \<Rightarrow> string \<Rightarrow> json \<Rightarrow> page" where
  "page_with_frame raw fid doc =
     \<lparr>evaluate = \<lambda>_. Inr raw,
      frame = \<lambda>i. if i = JStr fid then Some (\<lambda>_. Inr doc) else None\<rparr>"

definition empty_child_main :: json where
  "empty_child_main = element_record ''body'' [(''children'', JArr [JObj []])]"

definition no_xpath_child_main :: json where
  "no_xpath_child_main =
     element_record ''body'' [(''children'', JArr [JObj [(''tagName'', JStr ''div'')]])]"

definition body_node :: DOMElementNode where
  "body_node =
     \<lparr>is_visible = JBool False, parent = None, tag_name = JStr ''body'',
      xpath = JStr ''//body'', attributes = JObj [], children = [],
      is_interactive = JBool False, is_top_element = JBool False,
      highlight_index = JNull, shadow_root = JBool False,
      is_cross_oirigin_iframe = JBool False, id_value = JNull,
      viewport_coordinates = None, page_coordinates = None, viewport_info = None\<rparr>"

text \<open>
  The exceptions of a failed lookup in the reconstruction: a \<^verbatim>\<open>KeyError\<close> that names
  the key, a \<^verbatim>\<open>TypeError\<close>, an \<^verbatim>\<open>AttributeError\<close>. A record is plain if no element
  record that the reconstruction visits in it has one of the three coordinate blocks.
\<close>

fun lookup_error :: "error \<Rightarrow> bool" where
  "lookup_error (KeyError k) = True"
| "lookup_error AttributeError = True"
| "lookup_error TypeError = True"
| "lookup_error (ValueError m) = False"
| "lookup_error (PlaywrightError m) = False"


text \<open>
  The store and the trace of a build that returns. Two pages for the splice: one whose
  body holds a \<^verbatim>\<open>div\<close> with the \<^verbatim>\<open>id\<close> of the iframe that follows it, one whose iframe
  holds a second iframe, each with a live frame. Two records for the exceptions: an
  element record whose coordinate block is a number, and a body whose first child is a
  string.
\<close>

definition built_heap :: "args \<Rightarrow> page \<Rightarrow> heap" where
  "built_heap a pg = (case build_dom_tree a pg of Some (Inr (root, h), tr) \<Rightarrow> h | _ \<Rightarrow> [])"

definition built_trace :: "args \<Rightarrow> page \<Rightarrow> event list" where
  "built_trace a pg = (case build_dom_tree a pg of Some (res, tr) \<Rightarrow> tr | None \<Rightarrow> [])"

definition dup_id_main :: json where
  "dup_id_main =
     element_record ''body''
       [(''children'', JArr
          [element_record ''div'' [(''id'', JStr ''f1'')],
           iframe_record ''f1'' [text_record ''old'']])]"

definition dup_id_page :: page where
  "dup_id_page = page_with_frame dup_id_main ''f1'' example_frame_doc"

definition detached_main :: json where
  "detached_main =
     element_record ''body'' [(''children'', JArr [iframe_record ''f1'' [iframe_record ''f2'' []]])]"

definition detached_page :: page where
  "detached_page =
     \<lparr>evaluate = \<lambda>_. Inr detached_main,
      frame = \<lambda>i. if i = JStr ''f1'' \<or> i = JStr ''f2'' then Some (\<lambda>_. Inr example_frame_doc)
                   else None\<rparr>"



section \<open>Facts about the reconstruction\<close>


lemma bind_err_simps [simp]:
  "bind_err (Inl e) f = Inl e"
  "bind_err (Inr v) f = f v"
  by (simp_all add: bind_err_def)

lemma bind_err_Inr: "bind_err m f = Inr r \<longleftrightarrow> (\<exists>v. m = Inr v \<and> f v = Inr r)"
  by (cases m) auto

lemma parse_text_parent: "parse_text kvs par = Inr t \<Longrightarrow> parent t = par"
  by (auto simp: parse_text_def bind_err_Inr)

lemma parse_element_head_fields:
  "parse_element_head kvs par = Inr e \<Longrightarrow> parent e = par \<and> children e = []"
  by (auto simp: parse_element_head_def new_element_def bind_err_Inr)

lemma length_set_children [simp]: "length (set_children h a cs) = length h"
  by (simp add: set_children_def split: node.splits)

lemma length_set_parent [simp]: "length (set_parent h a p) = length h"
  by (simp add: set_parent_def split: node.splits)

lemma parent_of_set_children [simp]:
  "parent_of (set_children h a cs ! b) = parent_of (h ! b)"
  by (cases "a = b") (auto simp: set_children_def parent_of_def split: node.splits)

lemma children_of_set_children:
  "children_of (set_children h a cs ! b) =
     (if a = b \<and> is_element h a then cs else children_of (h ! b))"
  by (cases "a = b") (auto simp: set_children_def children_of_def is_element_def split: node.splits)

lemma set_children_prefix:
  "length h \<le> a \<Longrightarrow> \<exists>new'. set_children (h @ new) a cs = h @ new'"
  by (auto simp: set_children_def list_update_append split: node.splits)

lemma parse_ext:
  "parse_node d p h = Inr (r, h') \<Longrightarrow>
     (\<exists>new. h' = h @ new) \<and>
     (case r of None \<Rightarrow> h' = h
      | Some a \<Rightarrow> a = length h \<and> a < length h' \<and> parent_of (h' ! a) = p)"
  "parse_children cs en acc h = Inr (chn, h') \<Longrightarrow>
     (\<exists>new. h' = h @ new) \<and>
     (\<exists>cn. chn = acc @ cn \<and>
        (\<forall>c\<in>set cn. length h \<le> c \<and> c < length h' \<and> parent_of (h' ! c) = Some en))"
proof (induction d p h and cs en acc h arbitrary: r h' and chn h'
    rule: parse_node_parse_children.induct)
  case (1 node_data par h)
  show ?case
  proof (cases "truthy node_data")
    case False
    with "1.prems" show ?thesis by (simp add: parse_node.simps)
  next
    case True
    then obtain kvs where obj: "node_data = JObj kvs"
      using "1.prems" by (cases node_data) (auto simp: parse_node.simps)
    show ?thesis
    proof (cases "py_eq (dict_get kvs ''type'' JNull) (JStr ''TEXT_NODE'')")
      case is_text: True
      with True obj "1.prems" show ?thesis
        by (auto simp: parse_node.simps parent_of_def nth_append
            dest: parse_text_parent split: sum.splits)
    next
      case elem: False
      from True obj elem "1.prems" obtain e cs chn h2 where
        head: "parse_element_head kvs par = Inr e" and
        it: "py_iter (dict_get kvs ''children'' (JArr [])) = Inr cs" and
        pc: "parse_children cs (length h) [] (h @ [Element e]) = Inr (chn, h2)" and
        res: "r = Some (length h)" "h' = set_children h2 (length h) chn"
        by (auto simp: parse_node.simps split: sum.splits)
      from True have nn: "\<not> \<not> truthy node_data" by simp
      from "1.IH" [OF nn obj elem head it pc]
      obtain new where h2: "h2 = (h @ [Element e]) @ new" by auto
      then have cell: "h2 ! length h = Element e" by (simp add: nth_append)
      from head have "parent e = par" by (simp add: parse_element_head_fields)
      with cell have "parent_of (h2 ! length h) = par"
        by (simp add: parent_of_def)
      with res have par: "parent_of (h' ! length h) = par"
        by simp
      from h2 res set_children_prefix [of h "length h" "[Element e] @ new" chn]
      have "\<exists>new'. h' = h @ new'" by simp
      with par res h2 show ?thesis by auto
    qed
  qed
next
  case (2 en acc h)
  then show ?case by simp
next
  case (3 child rest en acc h)
  show ?case
  proof (cases "child = JNull")
    case True
    with "3.prems" "3.IH"(4) show ?thesis by simp
  next
    case False
    with "3.prems" obtain child_node h1 where
      pn: "parse_node child (Some en) h = Inr (child_node, h1)"
      by (auto split: sum.splits)
    note ih1 = "3.IH"(1) [OF False pn]
    show ?thesis
    proof (cases child_node)
      case None
      with False pn "3.prems" have rest: "parse_children rest en acc h1 = Inr (chn, h')"
        by simp
      from "3.IH"(2) [OF False pn refl None rest] ih1 None show ?thesis by auto
    next
      case (Some c)
      with False pn "3.prems" have rest: "parse_children rest en (acc @ [c]) h1 = Inr (chn, h')"
        by simp
      from "3.IH"(3) [OF False pn refl Some rest] obtain new cn where
        h': "h' = h1 @ new" and chn: "chn = (acc @ [c]) @ cn" and
        cn: "\<forall>c\<in>set cn. length h1 \<le> c \<and> c < length h' \<and> parent_of (h' ! c) = Some en"
        by auto
      from ih1 Some obtain new1 where h1: "h1 = h @ new1" and
        c: "c = length h" "c < length h1" "parent_of (h1 ! c) = Some en"
        by auto
      have "\<forall>x\<in>set (c # cn). length h \<le> x \<and> x < length h' \<and> parent_of (h' ! x) = Some en"
        using cn c h1 h' by (auto simp: nth_append)
      with chn h1 h' show ?thesis by auto
    qed
  qed
qed


lemma parse_node_falsy: "\<not> truthy d \<Longrightarrow> parse_node d par h = Inr (None, h)"
  by (simp add: parse_node.simps)

lemma parse_node_None_iff:
  "parse_node d par h = Inr (r, h') \<Longrightarrow> (r = None) = (\<not> truthy d)"
  by (cases d) (auto simp: parse_node.simps split: if_splits sum.splits)

lemma parse_node_reconstructs:
  assumes "parse_node d par h = Inr (Some a, h')"
  shows "reconstructs (h' ! a) d par"
proof -
  from assms have tr: "truthy d" using parse_node_None_iff by fastforce
  with assms obtain kvs where obj: "d = JObj kvs"
    by (cases d) (auto simp: parse_node.simps)
  show ?thesis
  proof (cases "is_text_record kvs")
    case True
    with tr obj assms show ?thesis
      by (auto simp: parse_node.simps reconstructs_def is_text_record_def split: sum.splits)
  next
    case False
    with tr obj assms obtain e cs chn h2 where
      head: "parse_element_head kvs par = Inr e" and
      pc: "parse_children cs (length h) [] (h @ [Element e]) = Inr (chn, h2)" and
      res: "a = length h" "h' = set_children h2 (length h) chn"
      by (auto simp: parse_node.simps is_text_record_def split: sum.splits)
    from parse_ext(2) [OF pc] obtain new where "h2 = (h @ [Element e]) @ new" by auto
    then have "h2 ! length h = Element e" "length h < length h2" by (simp_all add: nth_append)
    with res have "h' ! a = Element (e\<lparr>children := chn\<rparr>)"
      by (simp add: set_children_def)
    with False obj head show ?thesis
      by (simp add: reconstructs_def children_of_def)
  qed
qed

lemma parse_children_matches:
  "parse_children cs en acc h = Inr (chn, h') \<Longrightarrow>
     \<exists>cn. chn = acc @ cn \<and>
          list_all2 (\<lambda>c d. reconstructs (h' ! c) d (Some en)) cn (filter truthy cs) \<and>
          sorted_wrt (<) cn \<and> (\<forall>c\<in>set cn. length h \<le> c \<and> c < length h')"
proof (induction cs arbitrary: acc h)
  case Nil
  then show ?case by simp
next
  case (Cons child rest)
  show ?case
  proof (cases "truthy child")
    case False
    with Cons.prems have "parse_children rest en acc h = Inr (chn, h')"
      by (cases "child = JNull") (simp_all add: parse_node_falsy)
    from Cons.IH [OF this] False show ?thesis by simp
  next
    case True
    then have nn: "child \<noteq> JNull" by auto
    with Cons.prems obtain child_node h1 where
      pn: "parse_node child (Some en) h = Inr (child_node, h1)"
      by (auto split: sum.splits)
    with True obtain c where c: "child_node = Some c"
      using parse_node_None_iff [OF pn] by (cases child_node) auto
    with nn pn Cons.prems have rest: "parse_children rest en (acc @ [c]) h1 = Inr (chn, h')"
      by simp
    from Cons.IH [OF rest] obtain cn where
      chn: "chn = (acc @ [c]) @ cn" and
      m: "list_all2 (\<lambda>c d. reconstructs (h' ! c) d (Some en)) cn (filter truthy rest)" and
      s: "sorted_wrt (<) cn" and
      r: "\<forall>x\<in>set cn. length h1 \<le> x \<and> x < length h'"
      by auto
    from parse_ext(1) [OF pn] c obtain new1 where
      h1: "h1 = h @ new1" and cl: "c = length h" "c < length h1" by auto
    from parse_ext(2) [OF rest] obtain new2 where h': "h' = h1 @ new2" by auto
    from parse_node_reconstructs pn c have "reconstructs (h1 ! c) child (Some en)" by simp
    moreover from h' cl have "h' ! c = h1 ! c" by (simp add: nth_append)
    ultimately have "reconstructs (h' ! c) child (Some en)" by simp
    with m True have "list_all2 (\<lambda>c d. reconstructs (h' ! c) d (Some en)) (c # cn)
        (filter truthy (child # rest))" by simp
    moreover from s r cl have "sorted_wrt (<) (c # cn)" by auto
    moreover from r cl h1 h' have "\<forall>x\<in>set (c # cn). length h \<le> x \<and> x < length h'" by auto
    ultimately show ?thesis using chn by (intro exI [of _ "c # cn"]) simp
  qed
qed


section \<open>Facts about the store and the walks\<close>


lemma wf_heapD:
  "wf_heap h \<Longrightarrow> a < length h \<Longrightarrow> c \<in> set (children_of (h ! a)) \<Longrightarrow>
     a < c \<and> c < length h \<and> parent_of (h ! c) = Some a"
  unfolding wf_heap_def by blast

lemma wf_heap_distinct:
  "wf_heap h \<Longrightarrow> a < length h \<Longrightarrow> distinct (children_of (h ! a))"
  unfolding wf_heap_def by blast

lemma wf_heapI:
  assumes "\<And>a. a < length h \<Longrightarrow> distinct (children_of (h ! a))"
    and "\<And>a c. a < length h \<Longrightarrow> c \<in> set (children_of (h ! a)) \<Longrightarrow>
      a < c \<and> c < length h \<and> parent_of (h ! c) = Some a"
  shows "wf_heap h"
  unfolding wf_heap_def using assms by blast

lemma wf_heap_Nil [simp]: "wf_heap []"
  by (simp add: wf_heap_def)

lemma wf_heap_append_leaf:
  assumes "wf_heap h" "children_of n = []"
  shows "wf_heap (h @ [n])"
proof (rule wf_heapI)
  fix a
  assume "a < length (h @ [n])"
  with assms show "distinct (children_of ((h @ [n]) ! a))"
    by (cases "a = length h") (auto simp: nth_append intro: wf_heap_distinct)
next
  fix a c
  assume a: "a < length (h @ [n])" and c: "c \<in> set (children_of ((h @ [n]) ! a))"
  from a c assms(2) have a': "a < length h" by (cases "a = length h") (auto simp: nth_append)
  with c have "c \<in> set (children_of (h ! a))" by (simp add: nth_append)
  with assms(1) a' have "a < c \<and> c < length h \<and> parent_of (h ! c) = Some a"
    by (auto dest: wf_heapD)
  then show "a < c \<and> c < length (h @ [n]) \<and> parent_of ((h @ [n]) ! c) = Some a"
    by (simp add: nth_append)
qed

lemma wf_heap_set_children:
  assumes "wf_heap h"
    and "\<forall>c\<in>set cs. a < c \<and> c < length h \<and> parent_of (h ! c) = Some a"
    and "distinct cs"
  shows "wf_heap (set_children h a cs)"
proof (rule wf_heapI)
  fix b
  assume "b < length (set_children h a cs)"
  with assms(1,3) show "distinct (children_of (set_children h a cs ! b))"
    by (auto simp: children_of_set_children intro: wf_heap_distinct)
next
  fix b c
  assume b: "b < length (set_children h a cs)"
    and c: "c \<in> set (children_of (set_children h a cs ! b))"
  show "b < c \<and> c < length (set_children h a cs) \<and> parent_of (set_children h a cs ! c) = Some b"
  proof (cases "a = b \<and> is_element h a")
    case True
    with c have "c \<in> set cs" by (auto simp: children_of_set_children)
    with assms(2) True show ?thesis by auto
  next
    case False
    with c have "c \<in> set (children_of (h ! b))"
      by (auto simp: children_of_set_children)
    with assms(1) b have "b < c \<and> c < length h \<and> parent_of (h ! c) = Some b"
      by (auto dest: wf_heapD)
    then show ?thesis by simp
  qed
qed

lemma children_of_set_parent [simp]:
  "children_of (set_parent h a p ! b) = children_of (h ! b)"
  by (cases "a = b") (auto simp: set_parent_def children_of_def split: node.splits)

lemma parent_of_set_parent:
  "parent_of (set_parent h a p ! b) = (if a = b \<and> is_element h a then p else parent_of (h ! b))"
  by (cases "a = b") (auto simp: set_parent_def parent_of_def is_element_def split: node.splits)

lemma is_element_set_children [simp]: "is_element (set_children h a cs) b = is_element h b"
  by (cases "a = b") (auto simp: set_children_def is_element_def split: node.splits)

lemma is_element_set_parent [simp]: "is_element (set_parent h a p) b = is_element h b"
  by (cases "a = b") (auto simp: set_parent_def is_element_def split: node.splits)

lemma wf_heap_splice:
  assumes wf: "wf_heap h" and lt: "i < d" and d: "d < length h"
    and orphan: "parent_of (h ! d) = None"
  shows "wf_heap (splice h i d)"
proof (cases "is_element h d")
  case False
  with wf show ?thesis by (simp add: splice_def)
next
  case True
  have nochild: "d \<notin> set (children_of (h ! b))" if "b < length h" for b
  proof
    assume "d \<in> set (children_of (h ! b))"
    with wf that have "b < d \<and> d < length h \<and> parent_of (h ! d) = Some b"
      by (auto dest: wf_heapD)
    with orphan show False by simp
  qed
  have "wf_heap (set_parent h d (Some i))"
  proof (rule wf_heapI)
    fix b
    assume "b < length (set_parent h d (Some i))"
    with wf show "distinct (children_of (set_parent h d (Some i) ! b))"
      by (auto intro: wf_heap_distinct)
  next
    fix b c
    assume b: "b < length (set_parent h d (Some i))"
      and c: "c \<in> set (children_of (set_parent h d (Some i) ! b))"
    then have cb: "c \<in> set (children_of (h ! b))" "b < length h" by simp_all
    with nochild have "c \<noteq> d" by blast
    moreover from wf cb have "b < c \<and> c < length h \<and> parent_of (h ! c) = Some b"
      by (auto dest: wf_heapD)
    ultimately show "b < c \<and> c < length (set_parent h d (Some i)) \<and>
        parent_of (set_parent h d (Some i) ! c) = Some b"
      by (simp add: parent_of_set_parent)
  qed
  moreover have "\<forall>c\<in>set [d]. i < c \<and> c < length (set_parent h d (Some i)) \<and>
      parent_of (set_parent h d (Some i) ! c) = Some i"
    using lt d True by (simp add: parent_of_set_parent)
  ultimately show ?thesis using True by (simp add: splice_def wf_heap_set_children)
qed

lemma wf_parse:
  "parse_node d p h = Inr (r, h') \<Longrightarrow> wf_heap h \<Longrightarrow> wf_heap h'"
  "parse_children cs en acc h = Inr (chn, h') \<Longrightarrow> wf_heap h \<Longrightarrow> wf_heap h'"
proof (induction d p h and cs en acc h arbitrary: r h' and chn h'
    rule: parse_node_parse_children.induct)
  case (1 node_data par h)
  show ?case
  proof (cases "truthy node_data")
    case False
    with "1.prems" show ?thesis by (simp add: parse_node.simps)
  next
    case True
    then obtain kvs where obj: "node_data = JObj kvs"
      using "1.prems" by (cases node_data) (auto simp: parse_node.simps)
    show ?thesis
    proof (cases "py_eq (dict_get kvs ''type'' JNull) (JStr ''TEXT_NODE'')")
      case is_text: True
      with True obj "1.prems" obtain t where "h' = h @ [Text t]"
        by (auto simp: parse_node.simps split: sum.splits)
      with "1.prems" show ?thesis
        by (simp add: wf_heap_append_leaf children_of_def)
    next
      case elem: False
      from True obj elem "1.prems" obtain e cs chn h2 where
        head: "parse_element_head kvs par = Inr e" and
        it: "py_iter (dict_get kvs ''children'' (JArr [])) = Inr cs" and
        pc: "parse_children cs (length h) [] (h @ [Element e]) = Inr (chn, h2)" and
        res: "h' = set_children h2 (length h) chn"
        by (auto simp: parse_node.simps split: sum.splits)
      from True have nn: "\<not> \<not> truthy node_data" by simp
      from head have "children_of (Element e) = []"
        by (simp add: children_of_def parse_element_head_fields)
      with "1.prems" have "wf_heap (h @ [Element e])" by (simp add: wf_heap_append_leaf)
      with "1.IH" [OF nn obj elem head it pc] have wf2: "wf_heap h2" .
      from parse_ext(2) [OF pc]
      have "\<forall>c\<in>set chn. length h < c \<and> c < length h2 \<and> parent_of (h2 ! c) = Some (length h)"
        by auto
      moreover from parse_children_matches [OF pc] have "sorted_wrt (<) chn" by auto
      then have "distinct chn" by (simp add: strict_sorted_iff)
      ultimately show ?thesis using wf2 res by (simp add: wf_heap_set_children)
    qed
  qed
next
  case (2 en acc h)
  then show ?case by simp
next
  case (3 child rest en acc h)
  show ?case
  proof (cases "child = JNull")
    case True
    with "3.prems" "3.IH"(4) show ?thesis by simp
  next
    case False
    with "3.prems" obtain child_node h1 where
      pn: "parse_node child (Some en) h = Inr (child_node, h1)"
      by (auto split: sum.splits)
    from "3.IH"(1) [OF False pn] "3.prems" have wf1: "wf_heap h1" by simp
    show ?thesis
    proof (cases child_node)
      case None
      with False pn "3.prems" have "parse_children rest en acc h1 = Inr (chn, h')"
        by simp
      from "3.IH"(2) [OF False pn refl None this wf1] show ?thesis .
    next
      case (Some c)
      with False pn "3.prems" have "parse_children rest en (acc @ [c]) h1 = Inr (chn, h')"
        by simp
      from "3.IH"(3) [OF False pn refl Some this wf1] show ?thesis .
    qed
  qed
qed


lemma is_elementD: "is_element h a \<Longrightarrow> a < length h \<and> (\<exists>e. h ! a = Element e)"
  by (auto simp: is_element_def split: node.splits)

lemma reachable_via_child:
  assumes "reachable h c x" "node < length h" "c \<in> set (children_of (h ! node))"
  shows "reachable h node x"
  using assms
proof (induction rule: reachable.induct)
  case start
  then show ?case by (blast intro: reachable.intros)
next
  case (step a c')
  then show ?case by (blast intro: reachable.intros)
qed

lemma reachable_below:
  assumes "reachable h root x" "root < n"
    and "\<And>a c. a < n \<Longrightarrow> a < length h \<Longrightarrow> c \<in> set (children_of (h ! a)) \<Longrightarrow> c < n"
  shows "x < n"
  using assms by (induction rule: reachable.induct) auto

lemma find_cross_origin_iframes_total:
  "wf_heap h \<Longrightarrow> is_element h node \<Longrightarrow> length h - node \<le> k \<Longrightarrow>
     \<exists>r. find_cross_origin_iframes k h node = Some r \<and> (\<forall>x\<in>set r. is_element h x)"
proof (induction k arbitrary: node)
  case 0
  then show ?case by (auto dest: is_elementD)
next
  case (Suc k)
  from Suc.prems(2) obtain e where node: "node < length h" "h ! node = Element e"
    by (auto dest: is_elementD)
  let ?P = "\<lambda>s. \<exists>r. s = Some r \<and> (\<forall>x\<in>set r. is_element h x)"
  let ?f = "\<lambda>child r.
      case r of
        None \<Rightarrow> None
      | Some iframes \<Rightarrow>
          if is_element h child then
            (case find_cross_origin_iframes k h child of
               None \<Rightarrow> None
             | Some sub \<Rightarrow> Some (iframes @ sub))
          else Some iframes"
  have "?P (fold ?f (children e)
      (Some (if truthy (is_cross_oirigin_iframe e) then [node] else [])))"
  proof (rule fold_invariant [where Q = "\<lambda>c. c \<in> set (children e)"])
    show "?P (Some (if truthy (is_cross_oirigin_iframe e) then [node] else []))"
      using Suc.prems(2) by simp
  next
    fix c s
    assume c: "c \<in> set (children e)" and s: "?P s"
    show "?P (?f c s)"
    proof (cases "is_element h c")
      case False
      with s show ?thesis by auto
    next
      case True
      from c node have "c \<in> set (children_of (h ! node))" by (simp add: children_of_def)
      with Suc.prems(1) node have "node < c" by (auto dest: wf_heapD)
      with Suc.prems(3) have "length h - c \<le> k" by simp
      from Suc.IH [OF Suc.prems(1) True this] s True show ?thesis by auto
    qed
  qed simp
  with node show ?case by simp
qed

lemma find_iframe_node_total:
  "wf_heap h \<Longrightarrow> is_element h node \<Longrightarrow> length h - node \<le> k \<Longrightarrow>
     \<exists>r. find_iframe_node k h t node = Some r \<and>
       (\<forall>x. r = Some x \<longrightarrow> is_element h x \<and> matches_id h t x \<and> reachable h node x)"
proof (induction k arbitrary: node)
  case 0
  then show ?case by (auto dest: is_elementD)
next
  case (Suc k)
  from Suc.prems(2) obtain e where node: "node < length h" "h ! node = Element e"
    by (auto dest: is_elementD)
  show ?case
  proof (cases "py_eq (id_value e) t")
    case True
    with node Suc.prems(2) show ?thesis
      by (auto simp: matches_id_def intro: reachable.start)
  next
    case False
    let ?P = "\<lambda>s. \<exists>r. s = Some r \<and>
        (\<forall>x. r = Some x \<longrightarrow> is_element h x \<and> matches_id h t x \<and> reachable h node x)"
    let ?f = "\<lambda>child r.
        case r of
          Some None \<Rightarrow>
            if is_element h child then find_iframe_node k h t child
            else Some None
        | _ \<Rightarrow> r"
    have "?P (fold ?f (children e) (Some None))"
    proof (rule fold_invariant [where Q = "\<lambda>c. c \<in> set (children e)"])
      show "?P (Some None)" by simp
    next
      fix c s
      assume c: "c \<in> set (children e)" and s: "?P s"
      from s obtain r where r: "s = Some r" by auto
      show "?P (?f c s)"
      proof (cases "r = None \<and> is_element h c")
        case False
        with s r show ?thesis by (cases r) auto
      next
        case True
        from c node have cc: "c \<in> set (children_of (h ! node))" by (simp add: children_of_def)
        with Suc.prems(1) node have "node < c" by (auto dest: wf_heapD)
        with Suc.prems(3) have "length h - c \<le> k" by simp
        from Suc.IH [OF Suc.prems(1) _ this] True obtain r' where
          r': "find_iframe_node k h t c = Some r'"
            "\<forall>x. r' = Some x \<longrightarrow> is_element h x \<and> matches_id h t x \<and> reachable h c x"
          by auto
        with node cc have "\<forall>x. r' = Some x \<longrightarrow> reachable h node x"
          by (auto intro: reachable_via_child)
        with r r' True show ?thesis by auto
      qed
    qed simp
    with node False show ?thesis by simp
  qed
qed

lemma process_node_total:
  "wf_heap h \<Longrightarrow> node < length h \<Longrightarrow> length h - node \<le> k \<Longrightarrow>
     \<exists>r. process_node k h node m = Some r"
proof (induction k arbitrary: node m)
  case 0
  then show ?case by simp
next
  case (Suc k)
  show ?case
  proof (cases "h ! node")
    case (Text t)
    with Suc.prems show ?thesis by simp
  next
    case (Element e)
    show ?thesis
    proof (cases "index_node e node m")
      case (Inl err)
      with Element Suc.prems show ?thesis by simp
    next
      case (Inr m1)
      let ?f = "\<lambda>child r. case r of Some (Inr m') \<Rightarrow> process_node k h child m' | _ \<Rightarrow> r"
      have "\<exists>r. fold ?f (children e) (Some (Inr m1)) = Some r"
      proof (rule fold_invariant [where Q = "\<lambda>c. c \<in> set (children e)"])
        fix c and s :: "(error + selector_map) option"
        assume c: "c \<in> set (children e)" and s: "\<exists>r. s = Some r"
        from c Element have "c \<in> set (children_of (h ! node))" by (simp add: children_of_def)
        with Suc.prems have "node < c \<and> c < length h" by (auto dest: wf_heapD)
        with Suc.prems(3) have "c < length h" "length h - c \<le> k" by auto
        from Suc.IH [OF Suc.prems(1) this] s
        show "\<exists>r. ?f c s = Some r" by (auto split: sum.splits)
      qed simp_all
      with Element Inr Suc.prems show ?thesis by simp
    qed
  qed
qed


section \<open>Facts about the resolution loop and the build\<close>


lemma resolve_iframe_cases [consumes 1, case_names skip raised grown spliced]:
  assumes "resolve_iframe a pg root iframe h tr = Some (res, tr')"
  obtains
    (skip) ifr where "iframe < length h" "h ! iframe = Element ifr"
      "frame pg (id_value ifr) = None" "res = Inr h" "tr' = tr"
  | (raised) ifr fr e where "iframe < length h" "h ! iframe = Element ifr"
      "frame pg (id_value ifr) = Some fr"
      "fr a = Inl e \<or> (\<exists>result. fr a = Inr result \<and> parse_node result None h = Inl e)"
      "res = Inl e" "tr' = tr @ [FrameEvaluate iframe]"
  | (grown) ifr fr result r h1 where "iframe < length h" "h ! iframe = Element ifr"
      "frame pg (id_value ifr) = Some fr" "fr a = Inr result"
      "parse_node result None h = Inr (r, h1)"
      "r = None \<or> \<not> truthy (id_value ifr) \<or>
         find_iframe_node (length h1) h1 (id_value ifr) root = Some None"
      "res = Inr h1" "tr' = tr @ [FrameEvaluate iframe]"
  | (spliced) ifr fr result d h1 x where "iframe < length h" "h ! iframe = Element ifr"
      "frame pg (id_value ifr) = Some fr" "fr a = Inr result"
      "parse_node result None h = Inr (Some d, h1)" "truthy (id_value ifr)"
      "find_iframe_node (length h1) h1 (id_value ifr) root = Some (Some x)"
      "res = Inr (splice h1 x d)" "tr' = tr @ [FrameEvaluate iframe]"
proof -
  from assms obtain ifr where cell: "iframe < length h" "h ! iframe = Element ifr"
    by (auto simp: resolve_iframe_def split: if_splits node.splits)
  note unfold = resolve_iframe_def
  show ?thesis
  proof (cases "frame pg (id_value ifr)")
    case None
    with assms cell have "res = Inr h" "tr' = tr" by (auto simp: unfold)
    from skip [OF cell None this] show ?thesis .
  next
    case (Some fr)
    show ?thesis
    proof (cases "fr a")
      case (Inl e)
      with assms cell Some have "res = Inl e" "tr' = tr @ [FrameEvaluate iframe]"
        by (auto simp: unfold)
      from raised [OF cell Some _ this] Inl show ?thesis by blast
    next
      case (Inr result)
      show ?thesis
      proof (cases "parse_node result None h")
        case (Inl e)
        then have "truthy result" by (auto simp: parse_node.simps split: if_splits)
        with assms cell Some Inr Inl have "res = Inl e" "tr' = tr @ [FrameEvaluate iframe]"
          by (auto simp: unfold)
        from raised [OF cell Some _ this] Inr Inl show ?thesis by blast
      next
        case parsed: (Inr rh)
        obtain r h1 where rh: "rh = (r, h1)" by (cases rh)
        note p = parsed [unfolded rh]
        have fall: "r = None \<and> h1 = h" if "\<not> truthy result"
          using that p by (simp add: parse_node_falsy)
        show ?thesis
        proof (cases "\<exists>d x. r = Some d \<and> truthy (id_value ifr) \<and>
            find_iframe_node (length h1) h1 (id_value ifr) root = Some (Some x)")
          case True
          then obtain d x where f: "r = Some d" "truthy (id_value ifr)"
            "find_iframe_node (length h1) h1 (id_value ifr) root = Some (Some x)"
            by blast
          with fall have "truthy result" by auto
          with assms cell Some Inr p f
          have "res = Inr (splice h1 x d)" "tr' = tr @ [FrameEvaluate iframe]"
            by (auto simp: unfold)
          from spliced [OF cell Some Inr p [unfolded f(1)] f(2,3) this] show ?thesis .
        next
          case False
          then have d: "r = None \<or> \<not> truthy (id_value ifr) \<or>
              find_iframe_node (length h1) h1 (id_value ifr) root = Some None"
            using assms cell Some Inr p fall
            by (cases r; cases "truthy result")
              (auto simp: unfold split: option.splits if_splits)
          have "res = Inr h1 \<and> tr' = tr @ [FrameEvaluate iframe]"
            using assms cell Some Inr p fall False
            by (cases r; cases "truthy result")
              (auto simp: unfold split: option.splits if_splits)
          with grown [OF cell Some Inr p d] show ?thesis by blast
        qed
      qed
    qed
  qed
qed


lemma is_element_append: "is_element h x \<Longrightarrow> is_element (h @ new) x"
  by (auto simp: is_element_def nth_append)

lemma is_element_splice [simp]: "is_element (splice h i d) x = is_element h x"
  by (simp add: splice_def)

lemma length_splice [simp]: "length (splice h i d) = length h"
  by (simp add: splice_def)

lemma reachable_old:
  assumes "wf_heap h" "root < length h" "reachable (h @ new) root x"
  shows "x < length h"
proof (rule reachable_below [OF assms(3,2)])
  fix a c
  assume "a < length h" "c \<in> set (children_of ((h @ new) ! a))"
  then have "a < length h" "c \<in> set (children_of (h ! a))" by (simp_all add: nth_append)
  with assms(1) show "c < length h" by (auto dest: wf_heapD)
qed

lemma resolve_iframe_inv:
  assumes "resolve_iframe a pg root iframe h tr = Some (Inr h', tr')"
    and wf: "wf_heap h" and root: "is_element h root"
  shows "wf_heap h' \<and> length h \<le> length h' \<and> (\<forall>x. is_element h x \<longrightarrow> is_element h' x)"
  using assms(1)
proof (cases rule: resolve_iframe_cases)
  case (skip ifr)
  with wf show ?thesis by simp
next
  case (raised ifr fr e)
  then show ?thesis by simp
next
  case (grown ifr fr result r h1)
  from parse_ext(1) [OF grown(5)] obtain new where "h1 = h @ new" by auto
  with grown wf wf_parse(1) [OF grown(5)] show ?thesis by (auto intro: is_element_append)
next
  case (spliced ifr fr result d h1 x)
  from parse_ext(1) [OF spliced(5)] obtain new where
    h1: "h1 = h @ new" and d: "d = length h" "d < length h1" "parent_of (h1 ! d) = None"
    by auto
  from wf wf_parse(1) [OF spliced(5)] have wf1: "wf_heap h1" by simp
  from root h1 have root1: "is_element h1 root" by (simp add: is_element_append)
  from find_iframe_node_total [OF wf1 root1, of "length h1" "id_value ifr"] spliced(7)
  have "reachable h1 root x" by auto
  with wf root h1 have "x < length h" by (auto dest: is_elementD intro: reachable_old)
  with d have "x < d" by simp
  from wf_heap_splice [OF wf1 this d(2,3)] spliced h1 show ?thesis
    by (auto intro: is_element_append)
qed


lemma resolve_all_inv:
  "resolve_all a pg root ifs h tr = Some (Inr h', tr') \<Longrightarrow> wf_heap h \<Longrightarrow>
     is_element h root \<Longrightarrow>
     wf_heap h' \<and> length h \<le> length h' \<and> (\<forall>x. is_element h x \<longrightarrow> is_element h' x)"
proof (induction ifs arbitrary: h tr)
  case Nil
  then show ?case by simp
next
  case (Cons i ifs)
  from Cons.prems(1) obtain h1 tr1 where
    one: "resolve_iframe a pg root i h tr = Some (Inr h1, tr1)" and
    rest: "resolve_all a pg root ifs h1 tr1 = Some (Inr h', tr')"
    by (auto split: option.splits sum.splits)
  from resolve_iframe_inv [OF one Cons.prems(2,3)]
  have s1: "wf_heap h1" "length h \<le> length h1" "\<forall>x. is_element h x \<longrightarrow> is_element h1 x"
    by auto
  with Cons.prems(3) have "is_element h1 root" by simp
  from Cons.IH [OF rest s1(1) this] s1 show ?case by auto
qed


lemma build_dom_tree_cases [consumes 1, case_names built]:
  assumes "build_dom_tree a pg = Some (Inr (root, h), tr)"
  obtains raw h0 ifs tr0 where
    "evaluate pg a = Inr raw" "parse_node raw None [] = Inr (Some root, h0)"
    "is_element h0 root" "wf_heap h0"
    "find_cross_origin_iframes (length h0) h0 root = Some ifs"
    "\<forall>i\<in>set ifs. is_element h0 i"
    "resolve_all a pg root ifs h0 [] = Some (Inr h, tr0)"
    "tr = tr0 @ [Print ''Iframe not found'']"
proof -
  from assms obtain raw h0 ifs tr0 where
    f: "evaluate pg a = Inr raw" "parse_node raw None [] = Inr (Some root, h0)"
    "is_element h0 root"
    "find_cross_origin_iframes (length h0) h0 root = Some ifs"
    "resolve_all a pg root ifs h0 [] = Some (Inr h, tr0)"
    "tr = tr0 @ [Print ''Iframe not found'']"
    by (auto simp: build_dom_tree_def split: sum.splits option.splits if_splits)
  from wf_parse(1) [OF f(2)] have wf: "wf_heap h0" by simp
  from find_cross_origin_iframes_total [OF wf f(3), of "length h0"] f(4)
  have "\<forall>i\<in>set ifs. is_element h0 i" by auto
  with f wf that show ?thesis by blast
qed


lemma build_dom_tree_wf:
  assumes "build_dom_tree a pg = Some (Inr (root, h), tr)"
  shows "wf_heap h \<and> is_element h root"
  using assms
proof (cases rule: build_dom_tree_cases)
  case (built raw h0 ifs tr0)
  from resolve_all_inv [OF built(7,4,3)] built(3) show ?thesis by simp
qed

lemma wf_heap_linked:
  assumes wf: "wf_heap h" and r: "reachable h root n" and n: "n \<noteq> root"
  shows "\<exists>p. parent_of (h ! n) = Some p \<and> is_element h p \<and> reachable h root p \<and>
           n \<in> set (children_of (h ! p)) \<and>
           (\<forall>q<length h. n \<in> set (children_of (h ! q)) \<longrightarrow> q = p)"
  using r n
proof (cases rule: reachable.cases)
  case start
  with n show ?thesis by simp
next
  case (step p)
  from wf_heapD [OF wf step(2,3)] have par: "parent_of (h ! n) = Some p" by simp
  have "q = p" if "q < length h" "n \<in> set (children_of (h ! q))" for q
    using wf_heapD [OF wf that] par by simp
  moreover from step(2,3) have "is_element h p"
    by (auto simp: is_element_def children_of_def split: node.splits)
  ultimately show ?thesis using par step by blast
qed



lemma printed_append [simp]: "printed (xs @ ys) = printed xs @ printed ys"
  by (induction xs rule: printed.induct) simp_all

lemma printed_FrameEvaluate [simp]: "printed (map FrameEvaluate xs) = []"
  by (induction xs) simp_all

lemma find_cross_origin_iframes_sound:
  "find_cross_origin_iframes k h node = Some r \<Longrightarrow>
     \<forall>x\<in>set r. is_element h x \<and> reachable h node x \<and> flagged h x"
proof (induction k arbitrary: node r)
  case 0
  then show ?case by simp
next
  case (Suc k)
  from Suc.prems obtain e where node: "node < length h" "h ! node = Element e"
    by (auto split: if_splits node.splits)
  let ?good = "\<lambda>x. is_element h x \<and> reachable h node x \<and> flagged h x"
  let ?P = "\<lambda>s. \<forall>r. s = Some r \<longrightarrow> (\<forall>x\<in>set r. ?good x)"
  let ?f = "\<lambda>child r.
      case r of
        None \<Rightarrow> None
      | Some iframes \<Rightarrow>
          if is_element h child then
            (case find_cross_origin_iframes k h child of
               None \<Rightarrow> None
             | Some sub \<Rightarrow> Some (iframes @ sub))
          else Some iframes"
  have "?P (fold ?f (children e)
      (Some (if truthy (is_cross_oirigin_iframe e) then [node] else [])))"
  proof (rule fold_invariant [where Q = "\<lambda>c. c \<in> set (children e)"])
    show "?P (Some (if truthy (is_cross_oirigin_iframe e) then [node] else []))"
      using node by (auto simp: is_element_def flagged_def intro: reachable.start)
  next
    fix c s
    assume c: "c \<in> set (children e)" and s: "?P s"
    from c node have cc: "c \<in> set (children_of (h ! node))" by (simp add: children_of_def)
    have "?good x" if "find_cross_origin_iframes k h c = Some sub" "x \<in> set sub" for sub x
      using Suc.IH [OF that(1)] that(2) node cc by (auto intro: reachable_via_child)
    with s show "?P (?f c s)" by (auto split: option.splits if_splits)
  qed simp
  with node Suc.prems show ?case by simp
qed

lemma resolve_iframe_trace:
  assumes "resolve_iframe a pg root iframe h tr = Some (res, tr')"
  shows "tr' = tr \<or> tr' = tr @ [FrameEvaluate iframe]"
  using assms by (cases rule: resolve_iframe_cases) simp_all

lemma resolve_all_trace:
  "resolve_all a pg root ifs h tr = Some (res, tr') \<Longrightarrow>
     \<exists>xs. tr' = tr @ map FrameEvaluate xs \<and> set xs \<subseteq> set ifs"
proof (induction ifs arbitrary: h tr)
  case Nil
  then show ?case by simp
next
  case (Cons i ifs)
  from Cons.prems obtain r1 tr1 where
    one: "resolve_iframe a pg root i h tr = Some (r1, tr1)"
    by (auto split: option.splits)
  have "\<exists>ys. tr1 = tr @ map FrameEvaluate ys \<and> set ys \<subseteq> {i}"
  proof (cases "tr1 = tr")
    case True
    then show ?thesis by (intro exI [of _ "[]"]) simp
  next
    case False
    with resolve_iframe_trace [OF one] show ?thesis by (intro exI [of _ "[i]"]) simp
  qed
  then obtain ys where ys: "tr1 = tr @ map FrameEvaluate ys" "set ys \<subseteq> {i}"
    by blast
  show ?case
  proof (cases r1)
    case (Inl e)
    with one Cons.prems ys show ?thesis by auto
  next
    case (Inr h1)
    with one Cons.prems have "resolve_all a pg root ifs h1 tr1 = Some (res, tr')" by simp
    from Cons.IH [OF this] obtain xs where
      "tr' = tr1 @ map FrameEvaluate xs" "set xs \<subseteq> set ifs" by auto
    with ys show ?thesis by (intro exI [of _ "ys @ xs"]) auto
  qed
qed

lemma build_dom_tree_trace:
  assumes "build_dom_tree a pg = Some (res, tr)"
  shows "(tr = [] \<and> (\<exists>e. res = Inl e)) \<or>
    (\<exists>raw root h0 ifs res0 xs.
       evaluate pg a = Inr raw \<and> parse_node raw None [] = Inr (Some root, h0) \<and>
       is_element h0 root \<and>
       find_cross_origin_iframes (length h0) h0 root = Some ifs \<and>
       resolve_all a pg root ifs h0 [] = Some (res0, map FrameEvaluate xs) \<and>
       set xs \<subseteq> set ifs \<and>
       (case res0 of
          Inl e \<Rightarrow> res = Inl e \<and> tr = map FrameEvaluate xs
        | Inr h \<Rightarrow> res = Inr (root, h) \<and>
            tr = map FrameEvaluate xs @ [Print ''Iframe not found'']))"
proof (cases "\<exists>raw root h0 ifs. evaluate pg a = Inr raw \<and>
    parse_node raw None [] = Inr (Some root, h0) \<and> is_element h0 root \<and>
    find_cross_origin_iframes (length h0) h0 root = Some ifs")
  case False
  with assms have "tr = [] \<and> (\<exists>e. res = Inl e)"
    by (auto simp: build_dom_tree_def split: sum.splits option.splits if_splits)
  then show ?thesis by simp
next
  case True
  then obtain raw root h0 ifs where f: "evaluate pg a = Inr raw"
    "parse_node raw None [] = Inr (Some root, h0)" "is_element h0 root"
    "find_cross_origin_iframes (length h0) h0 root = Some ifs"
    by blast
  with assms obtain res0 tr0 where
    l: "resolve_all a pg root ifs h0 [] = Some (res0, tr0)"
    by (auto simp: build_dom_tree_def split: option.splits)
  from resolve_all_trace [OF l] obtain xs where
    xs: "tr0 = map FrameEvaluate xs" "set xs \<subseteq> set ifs" by auto
  from assms f l have "case res0 of
      Inl e \<Rightarrow> res = Inl e \<and> tr = tr0
    | Inr h \<Rightarrow> res = Inr (root, h) \<and> tr = tr0 @ [Print ''Iframe not found'']"
    by (auto simp: build_dom_tree_def split: sum.splits)
  with f l xs have "evaluate pg a = Inr raw \<and> parse_node raw None [] = Inr (Some root, h0) \<and>
       is_element h0 root \<and>
       find_cross_origin_iframes (length h0) h0 root = Some ifs \<and>
       resolve_all a pg root ifs h0 [] = Some (res0, map FrameEvaluate xs) \<and>
       set xs \<subseteq> set ifs \<and>
       (case res0 of
          Inl e \<Rightarrow> res = Inl e \<and> tr = map FrameEvaluate xs
        | Inr h \<Rightarrow> res = Inr (root, h) \<and>
            tr = map FrameEvaluate xs @ [Print ''Iframe not found''])"
    by (cases res0) simp_all
  then show ?thesis by blast
qed


lemma py_eq_JStr_left: "py_eq (JStr s) v = (v = JStr s)"
  by (cases v) auto

lemma py_eq_JNull_left: "py_eq JNull v = (v = JNull)"
  by (cases v) auto

lemma splice_nth_other: "p \<noteq> x \<Longrightarrow> p \<noteq> d \<Longrightarrow> splice h x d ! p = h ! p"
  by (auto simp: splice_def set_children_def set_parent_def split: node.splits)

lemma resolve_iframe_keeps:
  assumes step: "resolve_iframe a pg root i h tr = Some (Inr h', tr')"
    and wf: "wf_heap h" and root: "is_element h root"
    and p: "p < length h" "h ! p = Element e"
    and idv: "id_value e = JNull \<or> (\<exists>s. id_value e = JStr s)"
    and dead: "frame pg (id_value e) = None"
  shows "h' ! p = h ! p"
  using step
proof (cases rule: resolve_iframe_cases)
  case (skip ifr)
  then show ?thesis by simp
next
  case (raised ifr fr err)
  then show ?thesis by simp
next
  case (grown ifr fr result r h1)
  from parse_ext(1) [OF grown(5)] obtain new where "h1 = h @ new" by auto
  with grown p show ?thesis by (simp add: nth_append)
next
  case (spliced ifr fr result d h1 x)
  from parse_ext(1) [OF spliced(5)] obtain new where
    h1: "h1 = h @ new" and d: "d = length h" by auto
  from wf wf_parse(1) [OF spliced(5)] have wf1: "wf_heap h1" by simp
  from root h1 have root1: "is_element h1 root" by (simp add: is_element_append)
  from find_iframe_node_total [OF wf1 root1, of "length h1" "id_value ifr"] spliced(7)
  have m: "matches_id h1 (id_value ifr) x" by auto
  have "x \<noteq> p"
  proof
    assume "x = p"
    with m h1 p have "py_eq (id_value e) (id_value ifr)"
      by (simp add: matches_id_def nth_append)
    with idv have "id_value ifr = id_value e"
      by (auto simp: py_eq_JStr_left py_eq_JNull_left)
    with dead spliced(3,6) idv show False by auto
  qed
  with d p have "splice h1 x d ! p = h1 ! p" by (intro splice_nth_other) auto
  with spliced h1 p show ?thesis by (simp add: nth_append)
qed

lemma resolve_all_keeps:
  "resolve_all a pg root ifs h tr = Some (Inr h', tr') \<Longrightarrow> wf_heap h \<Longrightarrow>
     is_element h root \<Longrightarrow> p < length h \<Longrightarrow> h ! p = Element e \<Longrightarrow>
     id_value e = JNull \<or> (\<exists>s. id_value e = JStr s) \<Longrightarrow> frame pg (id_value e) = None \<Longrightarrow>
     h' ! p = h ! p"
proof (induction ifs arbitrary: h tr)
  case Nil
  then show ?case by simp
next
  case (Cons i ifs)
  from Cons.prems(1) obtain h1 tr1 where
    one: "resolve_iframe a pg root i h tr = Some (Inr h1, tr1)" and
    rest: "resolve_all a pg root ifs h1 tr1 = Some (Inr h', tr')"
    by (auto split: option.splits sum.splits)
  from resolve_iframe_inv [OF one Cons.prems(2,3)] Cons.prems(3,4)
  have s1: "wf_heap h1" "is_element h1 root" "p < length h1" by auto
  from resolve_iframe_keeps [OF one Cons.prems(2-7)] have k: "h1 ! p = h ! p" .
  with Cons.prems(5) have "h1 ! p = Element e" by simp
  from Cons.IH [OF rest s1 this Cons.prems(6,7)] k show ?case by simp
qed


section \<open>Facts about the selector map\<close>

lemma fold_index_step_Inl [simp]: "fold (index_step h) ns (Inl err) = Inl err"
  by (induction ns) (simp_all add: index_step_def)

lemma fold_nodes_None [simp]:
  "fold (\<lambda>child r. case r of None \<Rightarrow> None
                    | Some ns \<Rightarrow> (case T child of None \<Rightarrow> None | Some sub \<Rightarrow> Some (ns @ sub)))
     cs None = None"
  by (induction cs) simp_all

lemma fold_children_nodes:
  assumes ih: "\<And>c m s. c \<in> set cs \<Longrightarrow> T c = Some s \<Longrightarrow> P c m = Some (fold I s (Inr m))"
    and inl: "\<And>s err. fold I s (Inl err) = Inl err"
    and nodes: "fold (\<lambda>child r. case r of None \<Rightarrow> None
                    | Some ns \<Rightarrow> (case T child of None \<Rightarrow> None | Some sub \<Rightarrow> Some (ns @ sub)))
       cs (Some ns0) = Some ns"
  shows "\<exists>sub. ns = ns0 @ sub \<and>
           fold (\<lambda>child r. case r of Some (Inr m') \<Rightarrow> P child m' | _ \<Rightarrow> r) cs (Some r) =
             Some (fold I sub r)"
  using ih nodes
proof (induction cs arbitrary: ns0 r)
  case Nil
  then show ?case by simp
next
  case (Cons c cs)
  obtain s1 where s1: "T c = Some s1"
    using Cons.prems(2) by (cases "T c") simp_all
  with Cons.prems(2) have rest: "fold (\<lambda>child r. case r of None \<Rightarrow> None
                    | Some ns \<Rightarrow> (case T child of None \<Rightarrow> None | Some sub \<Rightarrow> Some (ns @ sub)))
       cs (Some (ns0 @ s1)) = Some ns"
    by simp
  have step: "(case r of Inr m' \<Rightarrow> P c m' | Inl err \<Rightarrow> Some r) = Some (fold I s1 r)"
    using Cons.prems(1) [of c s1] s1 inl by (cases r) simp_all
  from Cons.IH [OF _ rest, of "fold I s1 r"] Cons.prems(1)
  obtain sub where "ns = (ns0 @ s1) @ sub"
    "fold (\<lambda>child r. case r of Some (Inr m') \<Rightarrow> P child m' | _ \<Rightarrow> r) cs (Some (fold I s1 r)) =
       Some (fold I sub (fold I s1 r))"
    by auto
  with step show ?case
    by (intro exI [of _ "s1 @ sub"]) (cases r; simp)
qed

lemma process_node_tree_nodes:
  "tree_nodes k h node = Some ns \<Longrightarrow>
     process_node k h node m = Some (fold (index_step h) ns (Inr m))"
proof (induction k arbitrary: node ns m)
  case 0
  then show ?case by simp
next
  case (Suc k)
  from Suc.prems have node: "node < length h" by (simp split: if_splits)
  show ?case
  proof (cases "h ! node")
    case (Text t)
    with Suc.prems node show ?thesis by (auto simp: index_step_def)
  next
    case (Element e)
    with Suc.prems node have nodes: "fold (\<lambda>child r. case r of None \<Rightarrow> None
        | Some ns \<Rightarrow> (case tree_nodes k h child of None \<Rightarrow> None | Some sub \<Rightarrow> Some (ns @ sub)))
      (children e) (Some [node]) = Some ns"
      by simp
    have first: "index_step h node (Inr m) = index_node e node m"
      using Element by (simp add: index_step_def)
    show ?thesis
    proof (cases "index_node e node m")
      case (Inl err)
      from fold_children_nodes [where T = "tree_nodes k h" and P = "process_node k h"
          and I = "index_step h", OF Suc.IH _ nodes, of "Inl err"]
      obtain sub where "ns = [node] @ sub" by auto
      with Inl Element node first show ?thesis by simp
    next
      case (Inr m1)
      from fold_children_nodes [where T = "tree_nodes k h" and P = "process_node k h"
          and I = "index_step h", OF Suc.IH _ nodes, of "Inr m1"]
      obtain sub where "ns = [node] @ sub"
        "fold (\<lambda>child r. case r of Some (Inr m') \<Rightarrow> process_node k h child m' | _ \<Rightarrow> r)
           (children e) (Some (Inr m1)) = Some (fold (index_step h) sub (Inr m1))"
        by auto
      with Inr Element node first show ?thesis by simp
    qed
  qed
qed

lemma fold_index_step_hashable:
  "\<forall>n\<in>set ns. indexed h n \<longrightarrow> index_key h n \<noteq> None \<Longrightarrow>
     fold (index_step h) ns (Inr m) =
       Inr (fold (\<lambda>(k, n). AList.update k n) (index_entries h ns) m)"
proof (induction ns arbitrary: m)
  case Nil
  then show ?case by simp
next
  case (Cons n ns)
  show ?case
  proof (cases "index_key h n")
    case None
    with Cons.prems have "\<not> indexed h n" by auto
    then have "index_step h n (Inr m) = Inr m"
      by (auto simp: index_step_def indexed_def index_node_def split: node.splits)
    with None Cons show ?thesis by simp
  next
    case (Some k)
    then have "index_step h n (Inr m) = Inr (AList.update k n m)"
      by (auto simp: index_step_def index_key_def index_node_def
          split: node.splits if_splits sum.splits)
    with Some Cons show ?thesis by simp
  qed
qed

lemma tree_nodes_total:
  "wf_heap h \<Longrightarrow> node < length h \<Longrightarrow> length h - node \<le> k \<Longrightarrow>
     \<exists>ns. tree_nodes k h node = Some ns"
proof (induction k arbitrary: node)
  case 0
  then show ?case by simp
next
  case (Suc k)
  show ?case
  proof (cases "h ! node")
    case (Text t)
    with Suc.prems show ?thesis by simp
  next
    case (Element e)
    let ?f = "\<lambda>child r. case r of None \<Rightarrow> None
        | Some ns \<Rightarrow> (case tree_nodes k h child of None \<Rightarrow> None | Some sub \<Rightarrow> Some (ns @ sub))"
    have "\<exists>ns. fold ?f (children e) (Some [node]) = Some ns"
    proof (rule fold_invariant [where Q = "\<lambda>c. c \<in> set (children e)"])
      fix c and s :: "addr list option"
      assume c: "c \<in> set (children e)" and s: "\<exists>ns. s = Some ns"
      from c Element have "c \<in> set (children_of (h ! node))" by (simp add: children_of_def)
      with Suc.prems have "node < c \<and> c < length h" by (auto dest: wf_heapD)
      with Suc.prems(3) have "c < length h" "length h - c \<le> k" by auto
      from Suc.IH [OF Suc.prems(1) this] s show "\<exists>ns. ?f c s = Some ns" by auto
    qed simp_all
    with Element Suc.prems show ?thesis by simp
  qed
qed


lemma reachable_ge:
  assumes "wf_heap h" and "reachable h c x"
  shows "c \<le> x"
  using assms(2)
proof (induction rule: reachable.induct)
  case start
  show ?case by simp
next
  case (step a c')
  from wf_heapD [OF assms(1) step.hyps(2,3)] step.IH show ?case by simp
qed

lemma reachable_unfold:
  "reachable h node x \<longleftrightarrow>
     x = node \<or> (node < length h \<and> (\<exists>c\<in>set (children_of (h ! node)). reachable h c x))"
proof
  assume "reachable h node x"
  then show "x = node \<or> (node < length h \<and> (\<exists>c\<in>set (children_of (h ! node)). reachable h c x))"
  proof (induction rule: reachable.induct)
    case start
    show ?case by simp
  next
    case (step a c')
    from step.IH show ?case
    proof
      assume "a = node"
      with step.hyps show ?thesis by (auto intro: reachable.start)
    next
      assume "node < length h \<and> (\<exists>c\<in>set (children_of (h ! node)). reachable h c a)"
      with step.hyps show ?thesis by (auto intro: reachable.step)
    qed
  qed
next
  assume "x = node \<or> (node < length h \<and> (\<exists>c\<in>set (children_of (h ! node)). reachable h c x))"
  then show "reachable h node x"
    by (auto intro: reachable.start reachable_via_child)
qed

lemma siblings_disjoint:
  assumes wf: "wf_heap h" and node: "node < length h"
    and c1: "c1 \<in> set (children_of (h ! node))" and c2: "c2 \<in> set (children_of (h ! node))"
    and r1: "reachable h c1 x" and r2: "reachable h c2 x"
  shows "c1 = c2"
  using r1 r2
proof (induction rule: reachable.induct)
  case start
  from start show ?case
  proof (cases rule: reachable.cases)
    case start
    then show ?thesis by simp
  next
    case (step a)
    from wf_heapD [OF wf step(2,3)] wf_heapD [OF wf node c1] have "a = node" by simp
    with step(1) reachable_ge [OF wf] have "c2 \<le> node" by blast
    with wf_heapD [OF wf node c2] show ?thesis by simp
  qed
next
  case (step a x)
  from step.prems show ?case
  proof (cases rule: reachable.cases)
    case start
    with wf_heapD [OF wf step.hyps(2,3)] wf_heapD [OF wf node c2] have "a = node" by simp
    with step.hyps(1) reachable_ge [OF wf] have "c1 \<le> node" by blast
    with wf_heapD [OF wf node c1] show ?thesis by simp
  next
    case (step a')
    from wf_heapD [OF wf step(2,3)] wf_heapD [OF wf step.hyps(2,3)] have "a' = a" by simp
    with step(1) step.IH show ?thesis by simp
  qed
qed

lemma fold_nodes_distinct:
  assumes sub: "\<And>c s. c \<in> set cs \<Longrightarrow> T c = Some s \<Longrightarrow> distinct s \<and> set s = R c"
    and disj: "\<And>c c'. c \<in> set cs \<Longrightarrow> c' \<in> set cs \<Longrightarrow> c \<noteq> c' \<Longrightarrow> R c \<inter> R c' = {}"
    and "distinct cs" and "distinct ns0" and "\<And>c. c \<in> set cs \<Longrightarrow> set ns0 \<inter> R c = {}"
    and "fold (\<lambda>child r. case r of None \<Rightarrow> None
                    | Some ns \<Rightarrow> (case T child of None \<Rightarrow> None | Some sub \<Rightarrow> Some (ns @ sub)))
       cs (Some ns0) = Some ns"
  shows "distinct ns \<and> set ns = set ns0 \<union> \<Union> (R ` set cs)"
  using assms
proof (induction cs arbitrary: ns0)
  case Nil
  then show ?case by simp
next
  case (Cons c cs)
  obtain s1 where s1: "T c = Some s1"
    using Cons.prems(6) by (cases "T c") simp_all
  with Cons.prems(6) have rest: "fold (\<lambda>child r. case r of None \<Rightarrow> None
                    | Some ns \<Rightarrow> (case T child of None \<Rightarrow> None | Some sub \<Rightarrow> Some (ns @ sub)))
       cs (Some (ns0 @ s1)) = Some ns"
    by simp
  from Cons.prems(1) [of c s1] s1 have d1: "distinct s1" "set s1 = R c" by simp_all
  from Cons.prems(5) [of c] d1 Cons.prems(4) have d: "distinct (ns0 @ s1)" by auto
  have away: "set (ns0 @ s1) \<inter> R c' = {}" if "c' \<in> set cs" for c'
  proof -
    from that Cons.prems(3) have "c \<noteq> c'" by auto
    with Cons.prems(2) [of c c'] that have "R c \<inter> R c' = {}" by simp
    with Cons.prems(5) [of c'] that d1 show ?thesis by auto
  qed
  have "distinct ns \<and> set ns = set (ns0 @ s1) \<union> \<Union> (R ` set cs)"
  proof (rule Cons.IH [OF _ _ _ d away rest])
    show "distinct cs" using Cons.prems(3) by simp
  qed (use Cons.prems(1,2) in auto)
  with d1 show ?case by auto
qed

lemma tree_nodes_distinct:
  "wf_heap h \<Longrightarrow> tree_nodes k h node = Some ns \<Longrightarrow>
     distinct ns \<and> set ns = {x. reachable h node x}"
proof (induction k arbitrary: node ns)
  case 0
  then show ?case by simp
next
  case (Suc k)
  from Suc.prems have node: "node < length h" by (simp split: if_splits)
  show ?case
  proof (cases "h ! node")
    case (Text t)
    then have "children_of (h ! node) = []" by (simp add: children_of_def)
    then have "reachable h node x \<longleftrightarrow> x = node" for x
      by (subst reachable_unfold) simp
    then have r: "{x. reachable h node x} = {node}" by blast
    from Text Suc.prems node have "ns = [node]" by simp
    with r show ?thesis by simp
  next
    case (Element e)
    then have ch: "children_of (h ! node) = children e" by (simp add: children_of_def)
    from Element Suc.prems node have nodes: "fold (\<lambda>child r. case r of None \<Rightarrow> None
        | Some ns \<Rightarrow> (case tree_nodes k h child of None \<Rightarrow> None | Some sub \<Rightarrow> Some (ns @ sub)))
      (children e) (Some [node]) = Some ns"
      by simp
    have "distinct ns \<and> set ns = set [node] \<union> \<Union> ((\<lambda>c. {x. reachable h c x}) ` set (children e))"
    proof (rule fold_nodes_distinct [where T = "tree_nodes k h", OF _ _ _ _ _ nodes])
      show "distinct (children e)" using wf_heap_distinct [OF Suc.prems(1) node] ch by simp
    next
      fix c c'
      assume "c \<in> set (children e)" "c' \<in> set (children e)" "c \<noteq> c'"
      with siblings_disjoint [OF Suc.prems(1) node, of c c'] ch
      show "{x. reachable h c x} \<inter> {x. reachable h c' x} = {}" by auto
    next
      fix c
      assume "c \<in> set (children e)"
      with wf_heapD [OF Suc.prems(1) node, of c] ch have "node < c" by simp
      moreover have "c \<le> x" if "reachable h c x" for x
        using reachable_ge [OF Suc.prems(1) that] .
      ultimately have "\<not> reachable h c node" by fastforce
      then show "set [node] \<inter> {x. reachable h c x} = {}" by simp
    qed (use Suc.IH [OF Suc.prems(1)] in auto)
    moreover have "reachable h node x \<longleftrightarrow>
        x = node \<or> (\<exists>c\<in>set (children e). reachable h c x)" for x
      using node ch by (subst reachable_unfold) simp
    then have "{x. reachable h node x} =
        {node} \<union> \<Union> ((\<lambda>c. {x. reachable h c x}) ` set (children e))"
      by blast
    ultimately show ?thesis by simp
  qed
qed

lemma set_index_entries:
  "set (index_entries h ns) = {(k, n). n \<in> set ns \<and> index_key h n = Some k}"
  by (induction ns) (auto split: option.splits)

lemma snd_index_entries:
  "map snd (index_entries h ns) = filter (\<lambda>n. index_key h n \<noteq> None) ns"
  by (induction ns) (auto split: option.splits)

lemma fst_index_entries:
  "map fst (index_entries h ns) =
     map (\<lambda>n. the (index_key h n)) (filter (\<lambda>n. index_key h n \<noteq> None) ns)"
  by (induction ns) (auto split: option.splits)

lemma index_entries_append [simp]:
  "index_entries h (xs @ ys) = index_entries h xs @ index_entries h ys"
  by (induction xs) (auto split: option.splits)

lemma index_key_indexed: "index_key h n = Some k \<Longrightarrow> indexed h n"
  by (auto simp: index_key_def indexed_def split: node.splits if_splits)

lemma fold_update_map_of:
  "map_of (fold (\<lambda>(k, n). AList.update k n) es m0) x =
     (case map_of (rev es) x of Some v \<Rightarrow> Some v | None \<Rightarrow> map_of m0 x)"
proof (induction es arbitrary: m0)
  case Nil
  show ?case by simp
next
  case (Cons kv es)
  obtain k v where kv: "kv = (k, v)" by (cases kv)
  show ?case
    using Cons.IH [of "AList.update k v m0"] kv
    by (simp add: update_conv map_add_def split: option.splits)
qed

lemma fold_update_distinct:
  "distinct (map fst m0) \<Longrightarrow> distinct (map fst (fold (\<lambda>(k, n). AList.update k n) es m0))"
  by (induction es arbitrary: m0) (auto simp: distinct_update)

lemma fold_update_keys:
  "fst ` set (fold (\<lambda>(k, n). AList.update k n) es m0) = fst ` set m0 \<union> fst ` set es"
proof (induction es arbitrary: m0)
  case Nil
  show ?case by simp
next
  case (Cons kv es)
  obtain k v where kv: "kv = (k, v)" by (cases kv)
  have "fst ` set (fold (\<lambda>(k, n). AList.update k n) (kv # es) m0) =
      fst ` set (AList.update k v m0) \<union> fst ` set es"
    using Cons.IH [of "AList.update k v m0"] kv by simp
  also have "\<dots> = ({k} \<union> fst ` set m0) \<union> fst ` set es" by (simp only: dom_update)
  finally show ?case using kv by auto
qed

lemma update_fresh: "k \<notin> fst ` set al \<Longrightarrow> AList.update k v al = al @ [(k, v)]"
  by (induction al) auto

lemma fold_update_fresh:
  "distinct (map fst (m0 @ es)) \<Longrightarrow> fold (\<lambda>(k, n). AList.update k n) es m0 = m0 @ es"
proof (induction es arbitrary: m0)
  case Nil
  show ?case by simp
next
  case (Cons kv es)
  obtain k v where kv: "kv = (k, v)" by (cases kv)
  with Cons.prems have fresh: "k \<notin> fst ` set m0" by auto
  from Cons.prems kv have "distinct (map fst ((m0 @ [(k, v)]) @ es))" by auto
  from Cons.IH [OF this] fresh kv show ?case by (simp add: update_fresh)
qed

lemma map_of_rev_index_entries:
  "map_of (rev (index_entries h ns)) k = Some n \<longleftrightarrow>
     (\<exists>pre post. ns = pre @ n # post \<and> index_key h n = Some k \<and>
        (\<forall>x\<in>set post. index_key h x \<noteq> Some k))"
proof (induction ns rule: rev_induct)
  case Nil
  show ?case by simp
next
  case (snoc x xs)
  show ?case
  proof (cases "index_key h x = Some k")
    case True
    have "(\<exists>pre post. xs @ [x] = pre @ n # post \<and> index_key h n = Some k \<and>
        (\<forall>y\<in>set post. index_key h y \<noteq> Some k)) \<longleftrightarrow> n = x"
    proof
      assume "\<exists>pre post. xs @ [x] = pre @ n # post \<and> index_key h n = Some k \<and>
        (\<forall>y\<in>set post. index_key h y \<noteq> Some k)"
      then obtain pre post where p: "xs @ [x] = pre @ n # post"
        "\<forall>y\<in>set post. index_key h y \<noteq> Some k" by blast
      show "n = x"
      proof (cases post rule: rev_cases)
        case Nil
        with p show ?thesis by simp
      next
        case (snoc post' y)
        with p(1) have "xs @ [x] = (pre @ n # post') @ [y]" by simp
        then have "y = x" by (simp only: append1_eq_conv)
        with snoc p(2) True show ?thesis by simp
      qed
    next
      assume "n = x"
      with True show "\<exists>pre post. xs @ [x] = pre @ n # post \<and> index_key h n = Some k \<and>
        (\<forall>y\<in>set post. index_key h y \<noteq> Some k)"
        by (intro exI [of _ xs] exI [of _ "[]"]) simp
    qed
    with True show ?thesis by auto
  next
    case False
    have "(\<exists>pre post. xs @ [x] = pre @ n # post \<and> index_key h n = Some k \<and>
        (\<forall>y\<in>set post. index_key h y \<noteq> Some k)) \<longleftrightarrow>
      (\<exists>pre post. xs = pre @ n # post \<and> index_key h n = Some k \<and>
        (\<forall>y\<in>set post. index_key h y \<noteq> Some k))"
    proof
      assume "\<exists>pre post. xs @ [x] = pre @ n # post \<and> index_key h n = Some k \<and>
        (\<forall>y\<in>set post. index_key h y \<noteq> Some k)"
      then obtain pre post where p: "xs @ [x] = pre @ n # post" "index_key h n = Some k"
        "\<forall>y\<in>set post. index_key h y \<noteq> Some k" by blast
      show "\<exists>pre post. xs = pre @ n # post \<and> index_key h n = Some k \<and>
        (\<forall>y\<in>set post. index_key h y \<noteq> Some k)"
      proof (cases post rule: rev_cases)
        case Nil
        with p False show ?thesis by simp
      next
        case (snoc post' y)
        with p(1) have "xs @ [x] = (pre @ n # post') @ [y]" by simp
        then have "xs = pre @ n # post'" by (simp only: append1_eq_conv)
        with snoc p show ?thesis by auto
      qed
    next
      assume "\<exists>pre post. xs = pre @ n # post \<and> index_key h n = Some k \<and>
        (\<forall>y\<in>set post. index_key h y \<noteq> Some k)"
      then obtain pre post where "xs = pre @ n # post" "index_key h n = Some k"
        "\<forall>y\<in>set post. index_key h y \<noteq> Some k" by blast
      with False show "\<exists>pre post. xs @ [x] = pre @ n # post \<and> index_key h n = Some k \<and>
        (\<forall>y\<in>set post. index_key h y \<noteq> Some k)"
        by (intro exI [of _ pre] exI [of _ "post @ [x]"]) simp
    qed
    with False snoc.IH show ?thesis by (cases "index_key h x") auto
  qed
qed

lemma create_selector_map_preorder:
  assumes wf: "wf_heap h" and root: "root < length h"
    and hashable: "\<forall>n. reachable h root n \<and> indexed h n \<longrightarrow> index_key h n \<noteq> None"
  obtains ns where "preorder h root = Some ns" "distinct ns" "set ns = {n. reachable h root n}"
    "create_selector_map h root =
       Some (Inr (fold (\<lambda>(k, n). AList.update k n) (index_entries h ns) []))"
proof -
  from tree_nodes_total [OF wf root, of "length h"] obtain ns where
    ns: "tree_nodes (length h) h root = Some ns" by auto
  from tree_nodes_distinct [OF wf ns] have d: "distinct ns" "set ns = {n. reachable h root n}"
    by simp_all
  with hashable have "\<forall>n\<in>set ns. indexed h n \<longrightarrow> index_key h n \<noteq> None" by simp
  from fold_index_step_hashable [OF this, of "[]"] process_node_tree_nodes [OF ns, of "[]"]
  have "create_selector_map h root =
       Some (Inr (fold (\<lambda>(k, n). AList.update k n) (index_entries h ns) []))"
    by (simp add: create_selector_map_def)
  with ns d that show ?thesis by (simp add: preorder_def)
qed

section \<open>Facts about malformed records\<close>





lemma id_of_set_children [simp]: "id_of (set_children h a cs ! b) = id_of (h ! b)"
  by (cases "a = b") (auto simp: set_children_def id_of_def split: node.splits)

lemma id_of_set_parent [simp]: "id_of (set_parent h a p ! b) = id_of (h ! b)"
  by (cases "a = b") (auto simp: set_parent_def id_of_def split: node.splits)

lemma id_of_splice [simp]: "id_of (splice h x d ! b) = id_of (h ! b)"
  by (simp add: splice_def)






lemma getitem_lookup_error: "getitem v k = Inl e \<Longrightarrow> lookup_error e"
  by (cases v) (auto split: option.splits)







section \<open>Facts about the search for the placeholder\<close>

lemma py_eq_refl: "py_eq v v"
proof (induction v)
  case (JArr xs)
  then show ?case by (simp add: list_all2_same)
next
  case (JObj kvs)
  have "case (map_of kvs k, map_of kvs k) of (Some v, Some w) \<Rightarrow> py_eq v w | _ \<Rightarrow> False"
    if "k \<in> set (map fst kvs)" for k
  proof -
    from that obtain v where v: "map_of kvs k = Some v"
      by (cases "map_of kvs k") (auto simp: map_of_eq_None_iff)
    then have "(k, v) \<in> set kvs" by (rule map_of_SomeD)
    with JObj [of "(k, v)" v] have "py_eq v v" by simp
    with v show ?thesis by simp
  qed
  then show ?case by (simp add: list_all_iff)
qed simp_all

lemma reachable_append:
  assumes "reachable h root x" "root < length h" "wf_heap h"
  shows "reachable (h @ new) root x"
  using assms(1)
proof (induction rule: reachable.induct)
  case start
  show ?case by (rule reachable.start)
next
  case (step a c)
  from step.hyps(2,3) have "a < length (h @ new)" "c \<in> set (children_of ((h @ new) ! a))"
    by (simp_all add: nth_append)
  with step.IH show ?case by (rule reachable.step)
qed

lemma tree_nodes_in_store: "tree_nodes k h c = Some s \<Longrightarrow> c < length h"
  by (cases k) (auto split: if_splits)

lemma tree_nodes_Text:
  "tree_nodes k h c = Some s \<Longrightarrow> \<not> is_element h c \<Longrightarrow> s = [c] \<and> \<not> matches_id h t c"
  by (cases k) (auto simp: is_element_def matches_id_def split: if_splits node.splits)

lemma find_matches_append:
  "List.find P (xs @ ys) = (case List.find P xs of Some x \<Rightarrow> Some x | None \<Rightarrow> List.find P ys)"
  by (induction xs) auto

lemma fold_children_find:
  assumes ih: "\<And>c s. c \<in> set cs \<Longrightarrow> T c = Some s \<Longrightarrow> E c \<Longrightarrow> F c = Some (List.find P s)"
    and leaf: "\<And>c s. c \<in> set cs \<Longrightarrow> T c = Some s \<Longrightarrow> \<not> E c \<Longrightarrow> List.find P s = None"
    and nodes: "fold (\<lambda>child r. case r of None \<Rightarrow> None
                    | Some ns \<Rightarrow> (case T child of None \<Rightarrow> None | Some sub \<Rightarrow> Some (ns @ sub)))
       cs (Some ns0) = Some ns"
  shows "\<exists>sub. ns = ns0 @ sub \<and>
           fold (\<lambda>child r. case r of Some None \<Rightarrow> if E child then F child else Some None
                            | _ \<Rightarrow> r) cs (Some r) =
             Some (case r of Some x \<Rightarrow> Some x | None \<Rightarrow> List.find P sub)"
  using ih leaf nodes
proof (induction cs arbitrary: ns0 r)
  case Nil
  then show ?case by (cases r) simp_all
next
  case (Cons c cs)
  let ?G = "\<lambda>child r. case r of Some None \<Rightarrow> if E child then F child else Some None | _ \<Rightarrow> r"
  obtain s1 where s1: "T c = Some s1"
    using Cons.prems(3) by (cases "T c") simp_all
  with Cons.prems(3) have rest: "fold (\<lambda>child r. case r of None \<Rightarrow> None
                    | Some ns \<Rightarrow> (case T child of None \<Rightarrow> None | Some sub \<Rightarrow> Some (ns @ sub)))
       cs (Some (ns0 @ s1)) = Some ns"
    by simp
  have step: "?G c (Some r) = Some (case r of Some x \<Rightarrow> Some x | None \<Rightarrow> List.find P s1)"
  proof (cases r)
    case (Some x)
    then show ?thesis by simp
  next
    case None
    show ?thesis
    proof (cases "E c")
      case True
      with Cons.prems(1) [of c s1] s1 None show ?thesis by simp
    next
      case False
      with Cons.prems(2) [of c s1] s1 None show ?thesis by simp
    qed
  qed
  let ?r1 = "case r of Some x \<Rightarrow> Some x | None \<Rightarrow> List.find P s1"
  have "\<exists>sub. ns = (ns0 @ s1) @ sub \<and>
      fold ?G cs (Some ?r1) = Some (case ?r1 of Some x \<Rightarrow> Some x | None \<Rightarrow> List.find P sub)"
  proof (rule Cons.IH [OF _ _ rest])
    fix c' s
    assume c': "c' \<in> set cs" "T c' = Some s"
    then show "F c' = Some (List.find P s)" if "E c'"
      using Cons.prems(1) [of c' s] that by simp
    from c' show "List.find P s = None" if "\<not> E c'"
      using Cons.prems(2) [of c' s] that by simp
  qed
  then obtain sub where sub: "ns = (ns0 @ s1) @ sub"
    "fold ?G cs (Some ?r1) = Some (case ?r1 of Some x \<Rightarrow> Some x | None \<Rightarrow> List.find P sub)"
    by blast
  have "fold ?G (c # cs) (Some r) =
      Some (case r of Some x \<Rightarrow> Some x | None \<Rightarrow> List.find P (s1 @ sub))"
    using step sub(2) by (cases r) (simp_all add: find_matches_append split: option.splits)
  with sub(1) show ?case by (intro exI [of _ "s1 @ sub"]) simp
qed

lemma find_iframe_node_preorder:
  "tree_nodes k h node = Some ns \<Longrightarrow> is_element h node \<Longrightarrow>
     find_iframe_node k h t node = Some (List.find (matches_id h t) ns)"
proof (induction k arbitrary: node ns)
  case 0
  then show ?case by simp
next
  case (Suc k)
  from Suc.prems(2) obtain e where node: "node < length h" "h ! node = Element e"
    by (auto dest: is_elementD)
  with Suc.prems(1) have nodes: "fold (\<lambda>child r. case r of None \<Rightarrow> None
        | Some ns \<Rightarrow> (case tree_nodes k h child of None \<Rightarrow> None | Some sub \<Rightarrow> Some (ns @ sub)))
      (children e) (Some [node]) = Some ns"
    by simp
  have ih: "find_iframe_node k h t c = Some (List.find (matches_id h t) s)"
    if "c \<in> set (children e)" "tree_nodes k h c = Some s" "is_element h c" for c s
    using Suc.IH [OF that(2,3)] .
  have leaf: "List.find (matches_id h t) s = None"
    if "c \<in> set (children e)" "tree_nodes k h c = Some s" "\<not> is_element h c" for c s
    using tree_nodes_Text [OF that(2,3), of t] by simp
  have "\<exists>sub. ns = [node] @ sub \<and>
      fold (\<lambda>child r. case r of
          Some None \<Rightarrow> if is_element h child then find_iframe_node k h t child else Some None
        | _ \<Rightarrow> r) (children e) (Some None) =
        Some (case None of Some x \<Rightarrow> Some x | None \<Rightarrow> List.find (matches_id h t) sub)"
  proof (rule fold_children_find [where T = "tree_nodes k h" and P = "matches_id h t"])
    fix c s
    assume "c \<in> set (children e)" "tree_nodes k h c = Some s" "is_element h c"
    then show "find_iframe_node k h t c = Some (List.find (matches_id h t) s)" by (rule ih)
  next
    fix c s
    assume "c \<in> set (children e)" "tree_nodes k h c = Some s" "\<not> is_element h c"
    then show "List.find (matches_id h t) s = None" by (rule leaf)
  next
    show "fold (\<lambda>child r. case r of None \<Rightarrow> None
        | Some ns \<Rightarrow> (case tree_nodes k h child of None \<Rightarrow> None | Some sub \<Rightarrow> Some (ns @ sub)))
      (children e) (Some [node]) = Some ns"
      by (rule nodes)
  qed
  then obtain sub where sub: "ns = [node] @ sub"
    "fold (\<lambda>child r. case r of
        Some None \<Rightarrow> if is_element h child then find_iframe_node k h t child else Some None
      | _ \<Rightarrow> r) (children e) (Some None) = Some (List.find (matches_id h t) sub)"
    by auto
  from node have m: "matches_id h t node = py_eq (id_value e) t"
    by (simp add: matches_id_def)
  show ?case
  proof (cases "py_eq (id_value e) t")
    case True
    with node sub(1) m show ?thesis by simp
  next
    case False
    with node sub m show ?thesis by simp
  qed
qed

lemma find_first:
  "P x \<Longrightarrow> \<forall>y\<in>set pre. \<not> P y \<Longrightarrow> List.find P (pre @ x # post) = Some x"
  by (induction pre) auto

lemma reachable_shrink:
  assumes "reachable (h @ new) root x" "root < length h" "wf_heap h"
  shows "reachable h root x"
  using assms(1)
proof (induction rule: reachable.induct)
  case start
  show ?case by (rule reachable.start)
next
  case (step a c)
  from reachable_old [OF assms(3,2) step.hyps(1)] have a: "a < length h" .
  with step.hyps(3) have "c \<in> set (children_of (h ! a))" by (simp add: nth_append)
  with step.IH a show ?case by (rule reachable.step)
qed

lemmas parse_defs =
  parse_node.simps parse_element_head_def parse_text_def parse_optional_def new_element_def
  dict_get_def set_children_def element_record_def text_record_def is_text_record_def

lemmas build_defs =
  build_dom_tree_def resolve_iframe_def splice_def set_parent_def is_element_def
  example_main_def example_frame_doc_def example_page_def children_of_def parent_of_def

lemmas example_defs =
  iframe_record_def nested_main_def nested_frame_doc_def nested_page_def dead_page_def
  old_child_main_def flagged_def matches_id_def


lemmas index_defs =
  indexed_main_def duplicate_main_def index_key_def indexed_def index_node_def
  create_selector_map_def preorder_def


lemmas abort_defs =
  page_returning_def page_with_frame_def empty_child_main_def no_xpath_child_main_def
  body_node_def


lemmas splice_defs =
  built_heap_def built_trace_def dup_id_main_def dup_id_page_def detached_main_def
  detached_page_def



section \<open>The claims\<close>

text \<open>
  C9. A raw record that is false in a condition without being \<^verbatim>\<open>None\<close> (the empty dict
  \<open>{}\<close>, for one) is treated by \<^verbatim>\<open>_parse_node\<close> exactly as \<^verbatim>\<open>None\<close> is: the result is
  \<^verbatim>\<open>None\<close> with nothing built; as an entry of a children list it is dropped and the loop
  goes on; as the top-level result it makes the build fail with the same
  \<^verbatim>\<open>ValueError\<close> as a null result does.
\<close>

theorem falsy_record_like_null:
  assumes "\<not> truthy d"
  shows "parse_node d par h = parse_node JNull par h \<and>
         parse_node d par h = Inr (None, h) \<and>
         parse_children (d # rest) en acc h = parse_children rest en acc h \<and>
         (evaluate pg a = Inr d \<longrightarrow>
            build_dom_tree a pg =
              Some (Inl (ValueError ''Failed to parse HTML to dictionary''), []) \<and>
            build_dom_tree a pg = build_dom_tree a (pg\<lparr>evaluate := \<lambda>_. Inr JNull\<rparr>))"
  using assms by (simp add: parse_node_falsy build_dom_tree_def)

theorem falsy_record_like_null_witness:
  "\<not> truthy (JObj []) \<and>
   evaluate \<lparr>evaluate = \<lambda>_. Inr (JObj []), frame = \<lambda>_. None\<rparr> example_args = Inr (JObj []) \<and>
   parse_node (JObj []) None [] = Inr (None, []) \<and>
   parse_children [JObj [], text_record ''t''] 0 [] [] =
     parse_children [text_record ''t''] 0 [] [] \<and>
   build_dom_tree example_args \<lparr>evaluate = \<lambda>_. Inr (JObj []), frame = \<lambda>_. None\<rparr> =
     Some (Inl (ValueError ''Failed to parse HTML to dictionary''), [])"
proof -
  have f: "\<not> truthy (JObj [])" by simp
  have e: "evaluate \<lparr>evaluate = \<lambda>_. Inr (JObj []), frame = \<lambda>_. None\<rparr> example_args =
      Inr (JObj [])"
    by simp
  from f e
    falsy_record_like_null [OF f, of None "[]" "[text_record ''t'']" 0 "[]"
      "\<lparr>evaluate = \<lambda>_. Inr (JObj []), frame = \<lambda>_. None\<rparr>" example_args]
  show ?thesis by blast
qed

text \<open>
  C3. When \<^verbatim>\<open>_parse_node\<close> reconstructs an element record whose \<^verbatim>\<open>children\<close> is a list,
  the children list of the new element holds, in the listed order, one node for each raw
  entry that is kept, each reconstructing its entry with the new element as parent, and the
  nodes were built in that order. Entries are kept unless they are false in a condition;
  so if every entry is \<^verbatim>\<open>None\<close> or a non-empty record, exactly the \<^verbatim>\<open>None\<close> entries are
  dropped, with no placeholder: the length of the children list is the length of the raw
  list less the number of its \<^verbatim>\<open>None\<close> entries (3 for a list of 5 with 2 nulls).
\<close>

theorem children_follow_raw_order:
  assumes "parse_node (JObj kvs) par h = Inr (Some a, h')"
    and "\<not> is_text_record kvs"
    and "dict_get kvs ''children'' (JArr []) = JArr raw"
  shows "list_all2 (\<lambda>c d. reconstructs (h' ! c) d (Some a))
           (children_of (h' ! a)) (filter truthy raw) \<and>
         sorted_wrt (<) (children_of (h' ! a)) \<and>
         ((\<forall>d\<in>set raw. d = JNull \<or> truthy d) \<longrightarrow>
            length (children_of (h' ! a)) + count_list raw JNull = length raw \<and>
            list_all2 (\<lambda>c d. reconstructs (h' ! c) d (Some a))
              (children_of (h' ! a)) (filter (\<lambda>d. d \<noteq> JNull) raw))"
proof -
  from assms(1) have tr: "truthy (JObj kvs)" using parse_node_None_iff by fastforce
  with assms obtain e chn h2 where
    head: "parse_element_head kvs par = Inr e" and
    pc: "parse_children raw (length h) [] (h @ [Element e]) = Inr (chn, h2)" and
    res: "a = length h" "h' = set_children h2 (length h) chn"
    by (auto simp: parse_node.simps is_text_record_def split: sum.splits)
  from parse_ext(2) [OF pc] obtain new where "h2 = (h @ [Element e]) @ new" by auto
  then have cell: "h2 ! length h = Element e" "length h < length h2"
    by (simp_all add: nth_append)
  then have el: "is_element h2 (length h)" by (simp add: is_element_def)
  with res have ch: "children_of (h' ! a) = chn" by (simp add: children_of_set_children)
  from parse_children_matches [OF pc] have
    m: "list_all2 (\<lambda>c d. reconstructs (h2 ! c) d (Some a)) chn (filter truthy raw)" and
    s: "sorted_wrt (<) chn" and
    r: "\<forall>c\<in>set chn. length (h @ [Element e]) \<le> c \<and> c < length h2"
    using res by auto
  have "reconstructs (h' ! c) d (Some a)"
    if "c \<in> set chn" "reconstructs (h2 ! c) d (Some a)" for c d
  proof -
    from that r have "c \<noteq> length h" by auto
    with res have "h' ! c = h2 ! c" by (auto simp: set_children_def split: node.splits)
    with that show ?thesis by simp
  qed
  with m have m': "list_all2 (\<lambda>c d. reconstructs (h' ! c) d (Some a)) chn (filter truthy raw)"
    by (auto simp: list_all2_conv_all_nth)
  have nulls: "length (filter (\<lambda>d. d \<noteq> JNull) xs) + count_list xs JNull = length xs"
    for xs :: "json list"
    by (induction xs) auto
  have "length chn + count_list raw JNull = length raw \<and>
        list_all2 (\<lambda>c d. reconstructs (h' ! c) d (Some a)) chn (filter (\<lambda>d. d \<noteq> JNull) raw)"
    if nt: "\<forall>d\<in>set raw. d = JNull \<or> truthy d"
  proof -
    from nt have f: "filter truthy raw = filter (\<lambda>d. d \<noteq> JNull) raw"
      by (intro filter_cong) auto
    with m' nulls [of raw] show ?thesis by (auto dest: list_all2_lengthD)
  qed
  with m' s ch show ?thesis by simp
qed

theorem children_follow_raw_order_witness:
  "\<exists>h'. parse_node (element_record ''div'' [(''children'', JArr five_children)]) None [] =
          Inr (Some 0, h') \<and>
        \<not> is_text_record [(''tagName'', JStr ''div''), (''xpath'', JStr ''//div''),
            (''children'', JArr five_children)] \<and>
        (\<forall>d\<in>set five_children. d = JNull \<or> truthy d) \<and>
        length five_children = 5 \<and> count_list five_children JNull = 2 \<and>
        length (children_of (h' ! 0)) = 3 \<and>
        list_all2 (\<lambda>c d. reconstructs (h' ! c) d (Some 0)) (children_of (h' ! 0))
          [element_record ''a'' [], text_record ''t'', element_record ''b'' []]"
proof -
  let ?kvs = "[(''tagName'', JStr ''div''), (''xpath'', JStr ''//div''),
      (''children'', JArr five_children)]"
  obtain h' where p: "parse_node (JObj ?kvs) None [] = Inr (Some 0, h')"
    by (simp add: parse_defs five_children_def)
  have t: "\<not> is_text_record ?kvs" by (simp add: parse_defs)
  have c: "dict_get ?kvs ''children'' (JArr []) = JArr five_children" by (simp add: parse_defs)
  have n: "\<forall>d\<in>set five_children. d = JNull \<or> truthy d"
    by (simp add: five_children_def parse_defs)
  have l: "length five_children = 5" "count_list five_children JNull = 2"
    "filter (\<lambda>d. d \<noteq> JNull) five_children =
       [element_record ''a'' [], text_record ''t'', element_record ''b'' []]"
    by (simp_all add: five_children_def element_record_def text_record_def)
  from children_follow_raw_order [OF p t c] n l p t show ?thesis
    by (intro exI [of _ h']) (simp add: element_record_def)
qed


text \<open>
  C1. After \<^verbatim>\<open>_parse_node\<close> has reconstructed a raw tree, and still after
  \<^verbatim>\<open>_build_dom_tree\<close> has spliced the iframe subtrees in, every node that is reachable
  from the returned root and is not the root has a parent reference, the parent is an
  element of the tree, and the node is in the children list of that element by identity
  (equal addresses); no other object holds the node in its children list.
\<close>

theorem parent_links_children:
  assumes "(wf_heap h0 \<and> parse_node raw par h0 = Inr (Some root, h)) \<or>
           (\<exists>tr. build_dom_tree a pg = Some (Inr (root, h), tr))"
    and "reachable h root n" and "n \<noteq> root"
  shows "\<exists>p. parent_of (h ! n) = Some p \<and> is_element h p \<and> reachable h root p \<and>
           n \<in> set (children_of (h ! p)) \<and>
           (\<forall>q<length h. n \<in> set (children_of (h ! q)) \<longrightarrow> q = p)"
proof -
  from assms(1) have "wf_heap h"
    by (auto dest: wf_parse(1) build_dom_tree_wf)
  from wf_heap_linked [OF this assms(2,3)] show ?thesis .
qed

theorem parent_links_children_witness:
  "\<exists>h tr. build_dom_tree example_args example_page = Some (Inr (0, h), tr) \<and>
     reachable h 0 4 \<and> (4::nat) \<noteq> 0 \<and>
     parent_of (h ! 4) = Some 3 \<and> is_element h 3 \<and> reachable h 0 3 \<and>
     4 \<in> set (children_of (h ! 3)) \<and>
     (\<forall>q<length h. 4 \<in> set (children_of (h ! q)) \<longrightarrow> q = 3)"
proof -
  obtain h tr where b: "build_dom_tree example_args example_page = Some (Inr (0, h), tr)"
    and l: "length h = 6"
    and c: "children_of (h ! 0) = [1, 2, 3]" "children_of (h ! 3) = [4]"
    and p: "parent_of (h ! 4) = Some 3"
    by (simp add: build_defs parse_defs)
  have r3: "reachable h 0 3"
    using reachable.step [OF reachable.start, of 0 h 3] l c by simp
  have r4: "reachable h 0 4"
    using reachable.step [OF r3, of 4] l c by simp
  from b have "(wf_heap [] \<and> parse_node JNull None [] = Inr (Some 0, h)) \<or>
      (\<exists>tr. build_dom_tree example_args example_page = Some (Inr (0, h), tr))"
    by blast
  from parent_links_children [OF this r4] p b r4 show ?thesis by auto
qed



text \<open>
  C5. A cross-origin iframe placeholder of the reconstructed top-level tree whose
  \<^verbatim>\<open>id\<close> (a string or \<^verbatim>\<open>None\<close>, as the data model has it) names no live frame is the same
  object after \<^verbatim>\<open>_build_dom_tree\<close> as after the top-level reconstruction: its children
  list is the original one and its cross-origin flag is still set. Its own turn of the
  resolution loop leaves the store and the trace as they are and raises nothing.
\<close>

theorem dead_frame_placeholder_untouched:
  assumes "build_dom_tree a pg = Some (Inr (root, h), tr)"
    and "evaluate pg a = Inr raw" and "parse_node raw None [] = Inr (Some root, h0)"
    and "p < length h0" and "h0 ! p = Element e" and "flagged h0 p"
    and "id_value e = JNull \<or> (\<exists>s. id_value e = JStr s)"
    and "frame pg (id_value e) = None"
  shows "h ! p = h0 ! p \<and> children_of (h ! p) = children_of (h0 ! p) \<and> flagged h p \<and>
         (\<forall>h1 tr1. p < length h1 \<and> h1 ! p = Element e \<longrightarrow>
            resolve_iframe a pg root p h1 tr1 = Some (Inr h1, tr1))"
  using assms(1)
proof (cases rule: build_dom_tree_cases)
  case (built raw' h0' ifs tr0)
  with assms(2,3) have same: "h0' = h0" by simp
  from resolve_all_keeps [OF built(7) built(4,3)] same assms(4,5,7,8)
  have "h ! p = h0 ! p" by simp
  moreover from this assms(6) have "flagged h p" by (simp add: flagged_def)
  moreover have "resolve_iframe a pg root p h1 tr1 = Some (Inr h1, tr1)"
    if "p < length h1 \<and> h1 ! p = Element e" for h1 tr1
    using that assms(8) by (simp add: resolve_iframe_def)
  ultimately show ?thesis by simp
qed


theorem dead_frame_placeholder_untouched_witness:
  "\<exists>h h0 e. build_dom_tree example_args dead_page = Some (Inr (0, h), [Print ''Iframe not found'']) \<and>
      evaluate dead_page example_args = Inr example_main \<and>
      parse_node example_main None [] = Inr (Some 0, h0) \<and>
      3 < length h0 \<and> h0 ! 3 = Element e \<and> flagged h0 3 \<and> id_value e = JStr ''f1'' \<and>
      frame dead_page (JStr ''f1'') = None \<and>
      h ! 3 = h0 ! 3 \<and> children_of (h ! 3) = [] \<and> flagged h 3"
proof -
  obtain h where b: "build_dom_tree example_args dead_page =
      Some (Inr (0, h), [Print ''Iframe not found''])"
    by (simp add: build_defs parse_defs example_defs)
  have ev: "evaluate dead_page example_args = Inr example_main" by (simp add: dead_page_def)
  obtain h0 e where p: "parse_node example_main None [] = Inr (Some 0, h0)"
    and c: "3 < length h0" "h0 ! 3 = Element e" "flagged h0 3" "id_value e = JStr ''f1''"
      "children_of (h0 ! 3) = []"
    by (simp add: build_defs parse_defs example_defs)
  have d: "frame dead_page (id_value e) = None" by (simp add: dead_page_def)
  from c(4) have i: "id_value e = JNull \<or> (\<exists>s. id_value e = JStr s)" by simp
  from dead_frame_placeholder_untouched [OF b ev p c(1,2,3) i d] b ev p c d
  show ?thesis by auto
qed


text \<open>
  C6, as the spec has it: for every resolved cross-origin iframe whose extraction result
  reconstructs to an element, the resolver locates the placeholder by its \<^verbatim>\<open>id\<close>, makes
  it the parent of the new subtree's root and replaces the placeholder's children list by
  the one-element list of that root. The code does not look for the placeholder: it
  searches the tree for the first element in pre-order with an equal \<^verbatim>\<open>id\<close> and splices
  there, if there is one. In a page whose body holds a \<^verbatim>\<open>div\<close> with \<^verbatim>\<open>id\<close> \<^verbatim>\<open>f1\<close>
  before the iframe with \<^verbatim>\<open>id\<close> \<^verbatim>\<open>f1\<close>, the frame's document goes under the \<^verbatim>\<open>div\<close>
  and the placeholder keeps its old child. In a page whose iframe \<^verbatim>\<open>f1\<close> holds an iframe
  \<^verbatim>\<open>f2\<close>, both with a live frame, the first turn takes \<^verbatim>\<open>f2\<close> out of the tree; the
  second turn evaluates its frame and reconstructs the result, the search finds nothing,
  the placeholder keeps its empty children list and the new root has no parent.
\<close>

theorem splice_misses_placeholder:
  "built_trace example_args dup_id_page = [FrameEvaluate 2, Print ''Iframe not found''] \<and>
   flagged (built_heap example_args dup_id_page) 2 \<and>
   children_of (built_heap example_args dup_id_page ! 2) = [3] \<and>
   \<not> flagged (built_heap example_args dup_id_page) 1 \<and>
   children_of (built_heap example_args dup_id_page ! 1) = [4] \<and>
   parent_of (built_heap example_args dup_id_page ! 4) = Some 1 \<and>
   built_trace example_args detached_page =
     [FrameEvaluate 1, FrameEvaluate 2, Print ''Iframe not found''] \<and>
   flagged (built_heap example_args detached_page) 2 \<and>
   children_of (built_heap example_args detached_page ! 2) = [] \<and>
   is_element (built_heap example_args detached_page) 5 \<and>
   parent_of (built_heap example_args detached_page ! 5) = None"
  by (simp add: build_defs parse_defs example_defs abort_defs splice_defs)


text \<open>
  C6, amended. Take a turn of the resolution loop where the frame is found and its
  extraction result reconstructs to an element node. The nodes of the tree under the root
  are the same before and after the reconstruction of the result. If the iframe's
  \<^verbatim>\<open>id\<close> is true in a condition, the search gives the first node, in the pre-order of the
  tree under the root, that matches the \<^verbatim>\<open>id\<close>. If there is one, then after the turn it
  is the parent of the new subtree's root, its children list is the one-element list of
  that root, whatever it held before, and no other object has changed. That node is the
  iframe itself if the iframe is in the tree and no node before it in pre-order matches
  its \<^verbatim>\<open>id\<close>. If no node of the tree matches, or the \<^verbatim>\<open>id\<close> is false in a condition,
  the turn splices nothing: the store after it is the store with the new objects, every
  older object as it was and the new root without a parent.
\<close>

theorem splice_at_first_id_match:
  assumes "wf_heap h" and "is_element h root"
    and "iframe < length h" and "h ! iframe = Element ifr"
    and "frame pg (id_value ifr) = Some fr" and "fr a = Inr result"
    and "parse_node result None h = Inr (Some d, h1)" and "is_element h1 d"
  shows "\<exists>ns. preorder h1 root = Some ns \<and> distinct ns \<and>
           set ns = {x. reachable h root x} \<and> take (length h) h1 = h \<and>
           parent_of (h1 ! d) = None \<and>
           (truthy (id_value ifr) \<longrightarrow>
              find_iframe_node (length h1) h1 (id_value ifr) root =
                Some (List.find (matches_id h1 (id_value ifr)) ns)) \<and>
           (\<forall>x. truthy (id_value ifr) \<and>
                 List.find (matches_id h1 (id_value ifr)) ns = Some x \<longrightarrow>
              (\<exists>h'. resolve_iframe a pg root iframe h tr =
                       Some (Inr h', tr @ [FrameEvaluate iframe]) \<and>
                is_element h1 x \<and> children_of (h' ! x) = [d] \<and>
                parent_of (h' ! d) = Some x \<and> length h' = length h1 \<and>
                (\<forall>y. y \<noteq> x \<and> y \<noteq> d \<longrightarrow> h' ! y = h1 ! y))) \<and>
           (\<forall>pre post. truthy (id_value ifr) \<and> ns = pre @ iframe # post \<and>
                 (\<forall>y\<in>set pre. \<not> matches_id h1 (id_value ifr) y) \<longrightarrow>
              List.find (matches_id h1 (id_value ifr)) ns = Some iframe) \<and>
           (\<not> truthy (id_value ifr) \<or>
              List.find (matches_id h1 (id_value ifr)) ns = None \<longrightarrow>
              resolve_iframe a pg root iframe h tr =
                Some (Inr h1, tr @ [FrameEvaluate iframe]))"
proof -
  let ?t = "id_value ifr"
  from parse_ext(1) [OF assms(7)] obtain new where h1: "h1 = h @ new" by auto
  from assms(1) wf_parse(1) [OF assms(7)] have wf1: "wf_heap h1" by simp
  from assms(2) h1 have root1: "is_element h1 root" by (simp add: is_element_append)
  from assms(2) have root: "root < length h" by (auto dest: is_elementD)
  with h1 have "root < length h1" by simp
  from tree_nodes_total [OF wf1 this, of "length h1"]
  obtain ns where ns: "tree_nodes (length h1) h1 root = Some ns" by auto
  from tree_nodes_distinct [OF wf1 ns]
  have d: "distinct ns" and s1: "set ns = {x. reachable h1 root x}" by simp_all
  have "reachable h1 root x \<longleftrightarrow> reachable h root x" for x
    using reachable_append [OF _ root assms(1), of x new]
      reachable_shrink [OF _ root assms(1), of new x] h1 by blast
  with s1 have s: "set ns = {x. reachable h root x}" by simp
  from h1 have tk: "take (length h) h1 = h" by simp
  from parse_ext(1) [OF assms(7)] have orphan: "parent_of (h1 ! d) = None" by auto
  note f = find_iframe_node_preorder [OF ns root1, of ?t]
  from assms(7) have t: "truthy result" using parse_node_None_iff by fastforce
  have splice: "\<exists>h'. resolve_iframe a pg root iframe h tr =
                       Some (Inr h', tr @ [FrameEvaluate iframe]) \<and>
                is_element h1 x \<and> children_of (h' ! x) = [d] \<and>
                parent_of (h' ! d) = Some x \<and> length h' = length h1 \<and>
                (\<forall>y. y \<noteq> x \<and> y \<noteq> d \<longrightarrow> h' ! y = h1 ! y)"
    if tr: "truthy ?t" and fx: "List.find (matches_id h1 ?t) ns = Some x" for x
  proof -
    from f fx have fs: "find_iframe_node (length h1) h1 ?t root = Some (Some x)" by simp
    with assms t tr have r: "resolve_iframe a pg root iframe h tr =
        Some (Inr (splice h1 x d), tr @ [FrameEvaluate iframe])"
      by (simp add: resolve_iframe_def)
    from find_iframe_node_total [OF wf1 root1, of "length h1" ?t] fs
    have x: "is_element h1 x" by auto
    from assms(8) x have "children_of (splice h1 x d ! x) = [d]"
      by (simp add: splice_def children_of_set_children)
    moreover from assms(8) have "parent_of (splice h1 x d ! d) = Some x"
      by (simp add: splice_def parent_of_set_parent)
    moreover have "length (splice h1 x d) = length h1"
      by (simp add: splice_def)
    ultimately show ?thesis using r x by (simp add: splice_nth_other)
  qed
  have self: "List.find (matches_id h1 ?t) ns = Some iframe"
    if "ns = pre @ iframe # post" "\<forall>y\<in>set pre. \<not> matches_id h1 ?t y" for pre post
  proof -
    from assms(3,4) h1 have "h1 ! iframe = Element ifr" by (simp add: nth_append)
    then have "matches_id h1 ?t iframe" by (simp add: matches_id_def py_eq_refl)
    from find_first [of "matches_id h1 ?t", OF this that(2)] that(1) show ?thesis by simp
  qed
  have none: "resolve_iframe a pg root iframe h tr = Some (Inr h1, tr @ [FrameEvaluate iframe])"
    if "\<not> truthy ?t \<or> List.find (matches_id h1 ?t) ns = None"
  proof (cases "truthy ?t")
    case False
    with assms t show ?thesis by (simp add: resolve_iframe_def)
  next
    case True
    with that f have "find_iframe_node (length h1) h1 ?t root = Some None" by simp
    with assms t True show ?thesis by (simp add: resolve_iframe_def)
  qed
  from ns have pre: "preorder h1 root = Some ns" by (simp add: preorder_def)
  have c5: "truthy ?t \<longrightarrow>
      find_iframe_node (length h1) h1 ?t root = Some (List.find (matches_id h1 ?t) ns)"
    using f by simp
  have c6: "\<forall>x. truthy ?t \<and> List.find (matches_id h1 ?t) ns = Some x \<longrightarrow>
      (\<exists>h'. resolve_iframe a pg root iframe h tr =
               Some (Inr h', tr @ [FrameEvaluate iframe]) \<and>
        is_element h1 x \<and> children_of (h' ! x) = [d] \<and>
        parent_of (h' ! d) = Some x \<and> length h' = length h1 \<and>
        (\<forall>y. y \<noteq> x \<and> y \<noteq> d \<longrightarrow> h' ! y = h1 ! y))"
    using splice by blast
  have c7: "\<forall>pre post. truthy ?t \<and> ns = pre @ iframe # post \<and>
        (\<forall>y\<in>set pre. \<not> matches_id h1 ?t y) \<longrightarrow>
      List.find (matches_id h1 ?t) ns = Some iframe"
    using self by blast
  have c8: "\<not> truthy ?t \<or> List.find (matches_id h1 ?t) ns = None \<longrightarrow>
      resolve_iframe a pg root iframe h tr = Some (Inr h1, tr @ [FrameEvaluate iframe])"
    using none by blast
  show ?thesis
    by (rule exI [of _ ns]) (intro conjI pre d s tk orphan c5 c6 c7 c8)
qed

theorem splice_at_first_id_match_witness:
  "\<exists>h h1 h' ifr.
      parse_node old_child_main None [] = Inr (Some 0, h) \<and> wf_heap h \<and> is_element h 0 \<and>
      1 < length h \<and> h ! 1 = Element ifr \<and> children_of (h ! 1) = [2] \<and>
      frame example_page (id_value ifr) = Some (\<lambda>_. Inr example_frame_doc) \<and>
      parse_node example_frame_doc None h = Inr (Some 3, h1) \<and> is_element h1 3 \<and>
      truthy (id_value ifr) \<and> preorder h1 0 = Some ([0] @ 1 # [2]) \<and>
      (\<forall>y\<in>set [0]. \<not> matches_id h1 (id_value ifr) y) \<and>
      List.find (matches_id h1 (id_value ifr)) ([0] @ 1 # [2]) = Some 1 \<and>
      find_iframe_node (length h1) h1 (id_value ifr) 0 = Some (Some 1) \<and>
      resolve_iframe example_args example_page 0 1 h [] = Some (Inr h', [FrameEvaluate 1]) \<and>
      children_of (h' ! 1) = [3] \<and> parent_of (h' ! 3) = Some 1"
proof -
  obtain h h1 ifr where p: "parse_node old_child_main None [] = Inr (Some 0, h)"
    and f: "is_element h 0" "1 < length h" "h ! 1 = Element ifr" "children_of (h ! 1) = [2]"
      "frame example_page (id_value ifr) = Some (\<lambda>_. Inr example_frame_doc)"
      "parse_node example_frame_doc None h = Inr (Some 3, h1)" "is_element h1 3"
      "truthy (id_value ifr)"
    and n: "preorder h1 0 = Some ([0] @ 1 # [2])"
      "\<forall>y\<in>set [0]. \<not> matches_id h1 (id_value ifr) y"
    by (simp add: build_defs parse_defs example_defs preorder_def matches_id_def
        numeral_eq_Suc)
  from wf_parse(1) [OF p] have wf: "wf_heap h" by simp
  have e: "(\<lambda>_. Inr example_frame_doc) example_args = Inr example_frame_doc" by simp
  from splice_at_first_id_match [OF wf f(1,2,3,5) e f(6,7), where tr = "[]"]
  obtain ns where ns: "preorder h1 0 = Some ns"
    and q: "truthy (id_value ifr) \<longrightarrow>
              find_iframe_node (length h1) h1 (id_value ifr) 0 =
                Some (List.find (matches_id h1 (id_value ifr)) ns)"
      "\<forall>x. truthy (id_value ifr) \<and>
                 List.find (matches_id h1 (id_value ifr)) ns = Some x \<longrightarrow>
              (\<exists>h'. resolve_iframe example_args example_page 0 1 h [] =
                       Some (Inr h', [] @ [FrameEvaluate 1]) \<and>
                is_element h1 x \<and> children_of (h' ! x) = [3] \<and>
                parent_of (h' ! 3) = Some x \<and> length h' = length h1 \<and>
                (\<forall>y. y \<noteq> x \<and> y \<noteq> 3 \<longrightarrow> h' ! y = h1 ! y))"
      "\<forall>pre post. truthy (id_value ifr) \<and> ns = pre @ 1 # post \<and>
                 (\<forall>y\<in>set pre. \<not> matches_id h1 (id_value ifr) y) \<longrightarrow>
              List.find (matches_id h1 (id_value ifr)) ns = Some 1"
    by blast
  from ns n(1) have nseq: "ns = [0] @ 1 # [2]" by simp
  with q(3) f(8) n(2) have fnd: "List.find (matches_id h1 (id_value ifr)) ns = Some 1"
    by blast
  with q(1) f(8) have fi: "find_iframe_node (length h1) h1 (id_value ifr) 0 = Some (Some 1)"
    by simp
  from q(2) f(8) fnd obtain h' where
    "resolve_iframe example_args example_page 0 1 h [] = Some (Inr h', [FrameEvaluate 1])"
    "children_of (h' ! 1) = [3]" "parent_of (h' ! 3) = Some 1"
    by auto
  with p wf f n fnd fi nseq show ?thesis by auto
qed

text \<open>
  C7. The line \<^verbatim>\<open>Iframe not found\<close> is printed exactly when the resolution loop runs to
  its end, that is exactly when the build returns a tree: once, as the last event, however
  many iframes were discovered and resolved. A build that raises prints nothing. The
  returned store is the one the loop ended with: the print changes neither the outcome
  nor the tree.
\<close>

theorem iframe_not_found_printed_on_completion:
  assumes "build_dom_tree a pg = Some (res, tr)"
  shows "printed tr = (case res of Inl e \<Rightarrow> [] | Inr r \<Rightarrow> [''Iframe not found'']) \<and>
    (\<forall>root h. res = Inr (root, h) \<longrightarrow>
       (\<exists>raw h0 ifs tr0.
          evaluate pg a = Inr raw \<and> parse_node raw None [] = Inr (Some root, h0) \<and>
          find_cross_origin_iframes (length h0) h0 root = Some ifs \<and>
          resolve_all a pg root ifs h0 [] = Some (Inr h, tr0) \<and>
          tr = tr0 @ [Print ''Iframe not found'']))"
proof -
  have "printed tr = (case res of Inl e \<Rightarrow> [] | Inr r \<Rightarrow> [''Iframe not found''])"
  proof (cases "tr = [] \<and> (\<exists>e. res = Inl e)")
    case True
    then show ?thesis by auto
  next
    case False
    with build_dom_tree_trace [OF assms] obtain root res0 xs where
      "case res0 of
          Inl e \<Rightarrow> res = Inl e \<and> tr = map FrameEvaluate xs
        | Inr h \<Rightarrow> res = Inr (root, h) \<and>
            tr = map FrameEvaluate xs @ [Print ''Iframe not found'']"
      by blast
    then show ?thesis by (cases res0) auto
  qed
  moreover have "\<exists>raw h0 ifs tr0.
          evaluate pg a = Inr raw \<and> parse_node raw None [] = Inr (Some root, h0) \<and>
          find_cross_origin_iframes (length h0) h0 root = Some ifs \<and>
          resolve_all a pg root ifs h0 [] = Some (Inr h, tr0) \<and>
          tr = tr0 @ [Print ''Iframe not found'']" if "res = Inr (root, h)" for root h
    using assms [unfolded that] by (cases rule: build_dom_tree_cases) blast
  ultimately show ?thesis by blast
qed

theorem iframe_not_found_printed_on_completion_witness:
  "\<exists>h. build_dom_tree example_args example_page =
          Some (Inr (0, h), [FrameEvaluate 3, Print ''Iframe not found'']) \<and>
        children_of (h ! 3) = [4] \<and>
        printed [FrameEvaluate 3, Print ''Iframe not found''] = [''Iframe not found'']"
proof -
  obtain h where b: "build_dom_tree example_args example_page =
      Some (Inr (0, h), [FrameEvaluate 3, Print ''Iframe not found''])"
    and c: "children_of (h ! 3) = [4]"
    by (simp add: build_defs parse_defs)
  from iframe_not_found_printed_on_completion [OF b] b c show ?thesis by auto
qed


text \<open>
  C8. Every evaluation inside a frame is made for an iframe element that discovery
  collected from the tree as the top-level reconstruction left it, before the loop: a
  flagged element of that tree, built before any splice (its address is below the size of
  the store at discovery). An iframe element that a splice brings in is a later object, so
  no turn of the loop is run for it in the same build.
\<close>

theorem discovery_before_resolution:
  assumes "build_dom_tree a pg = Some (res, tr)" and "FrameEvaluate n \<in> set tr"
  shows "\<exists>raw root h0 ifs.
           evaluate pg a = Inr raw \<and> parse_node raw None [] = Inr (Some root, h0) \<and>
           find_cross_origin_iframes (length h0) h0 root = Some ifs \<and>
           n \<in> set ifs \<and> n < length h0 \<and> is_element h0 n \<and> flagged h0 n \<and>
           reachable h0 root n"
proof -
  from build_dom_tree_trace [OF assms(1)] assms(2) obtain raw root h0 ifs res0 xs where
    f: "evaluate pg a = Inr raw" "parse_node raw None [] = Inr (Some root, h0)"
    "find_cross_origin_iframes (length h0) h0 root = Some ifs"
    "set xs \<subseteq> set ifs" and
    tr: "case res0 of
          Inl e \<Rightarrow> res = Inl e \<and> tr = map FrameEvaluate xs
        | Inr h \<Rightarrow> res = Inr (root, h) \<and>
            tr = map FrameEvaluate xs @ [Print ''Iframe not found'']"
    by auto
  from tr assms(2) have "n \<in> set xs" by (auto split: sum.splits)
  with f(4) have n: "n \<in> set ifs" by blast
  with find_cross_origin_iframes_sound [OF f(3)]
  have "is_element h0 n \<and> reachable h0 root n \<and> flagged h0 n" by blast
  with f n show ?thesis by (auto dest: is_elementD)
qed

theorem discovery_before_resolution_witness:
  "\<exists>h. build_dom_tree example_args nested_page =
          Some (Inr (0, h), [FrameEvaluate 1, Print ''Iframe not found'']) \<and>
      FrameEvaluate 1 \<in> set [FrameEvaluate 1, Print ''Iframe not found''] \<and>
      (\<exists>h0 ifs. parse_node nested_main None [] = Inr (Some 0, h0) \<and>
         find_cross_origin_iframes (length h0) h0 0 = Some ifs \<and>
         1 \<in> set ifs \<and> 1 < length h0 \<and> flagged h0 1) \<and>
      flagged h 3 \<and> matches_id h (JStr ''f2'') 3 \<and> frame nested_page (JStr ''f2'') \<noteq> None \<and>
      children_of (h ! 3) = []"
proof -
  obtain h where b: "build_dom_tree example_args nested_page =
      Some (Inr (0, h), [FrameEvaluate 1, Print ''Iframe not found''])"
    and n: "flagged h 3" "matches_id h (JStr ''f2'') 3" "children_of (h ! 3) = []"
    by (simp add: build_defs parse_defs example_defs)
  have m: "FrameEvaluate 1 \<in> set [FrameEvaluate 1, Print ''Iframe not found'']" by simp
  have ev: "evaluate nested_page example_args = Inr nested_main" by (simp add: nested_page_def)
  from discovery_before_resolution [OF b m] obtain raw root h0 ifs where
    d: "evaluate nested_page example_args = Inr raw"
    "parse_node raw None [] = Inr (Some root, h0)"
    "find_cross_origin_iframes (length h0) h0 root = Some ifs" "1 \<in> set ifs"
    "1 < length h0" "flagged h0 1"
    by blast
  from d(1) ev have raw: "raw = nested_main" by simp
  from parse_ext(1) [OF d(2)] have root: "root = 0" by simp
  from d raw root have "\<exists>h0 ifs. parse_node nested_main None [] = Inr (Some 0, h0) \<and>
         find_cross_origin_iframes (length h0) h0 0 = Some ifs \<and>
         1 \<in> set ifs \<and> 1 < length h0 \<and> flagged h0 1"
    by blast
  with b n m show ?thesis by (simp add: nested_page_def)
qed



text \<open>
  C2. On a finished tree whose non-null \<^verbatim>\<open>highlight_index\<close> values can be dict keys and
  are unique among the elements of the tree, \<^verbatim>\<open>_create_selector_map\<close> returns a map
  whose entries are exactly the pairs of the index and the node, for each element of the
  tree with a non-null index. Text nodes and elements with a null index give no entry.
  The keys are distinct and the size of the map is the number of elements of the tree
  with a non-null index.
\<close>

theorem selector_map_entries:
  assumes "wf_heap h" and "root < length h"
    and "\<forall>n. reachable h root n \<and> indexed h n \<longrightarrow> index_key h n \<noteq> None"
    and "inj_on (index_key h) {n. reachable h root n \<and> indexed h n}"
  shows "\<exists>m. create_selector_map h root = Some (Inr m) \<and>
           set m = {(k, n). reachable h root n \<and> index_key h n = Some k} \<and>
           distinct (map fst m) \<and>
           length m = card {n. reachable h root n \<and> indexed h n}"
  using assms(1-3)
proof (cases rule: create_selector_map_preorder)
  case (1 ns)
  let ?S = "{n. reachable h root n \<and> indexed h n}"
  let ?es = "index_entries h ns"
  from assms(3) 1(3) have S: "?S = {n \<in> set ns. index_key h n \<noteq> None}"
    by (auto dest: index_key_indexed)
  have f: "filter (\<lambda>n. index_key h n \<noteq> None) ns = map snd ?es"
    by (simp add: snd_index_entries)
  from 1(2) have df: "distinct (filter (\<lambda>n. index_key h n \<noteq> None) ns)" by simp
  have "inj_on (\<lambda>n. the (index_key h n)) ?S"
  proof (rule inj_onI)
    fix x y
    assume x: "x \<in> ?S" and y: "y \<in> ?S"
      and eq: "the (index_key h x) = the (index_key h y)"
    from assms(3) x obtain kx where kx: "index_key h x = Some kx" by auto
    from assms(3) y obtain ky where ky: "index_key h y = Some ky" by auto
    from kx ky eq have "index_key h x = index_key h y" by simp
    with assms(4) x y show "x = y" by (auto dest: inj_onD)
  qed
  with S df have d: "distinct (map fst ?es)"
    by (simp add: fst_index_entries distinct_map)
  then have m: "fold (\<lambda>(k, n). AList.update k n) ?es [] = ?es"
    using fold_update_fresh [of "[]" ?es] by simp
  have "length ?es = length (map snd ?es)" by simp
  also have "\<dots> = card (set (filter (\<lambda>n. index_key h n \<noteq> None) ns))"
    using df by (simp only: f [symmetric] distinct_card)
  also have "\<dots> = card ?S" using S by simp
  finally have "length ?es = card ?S" .
  with 1 m d show ?thesis by (simp add: set_index_entries)
qed

theorem selector_map_entries_witness:
  "\<exists>h. parse_node indexed_main None [] = Inr (Some 0, h) \<and>
      wf_heap h \<and> 0 < length h \<and>
      (\<forall>n. reachable h 0 n \<and> indexed h n \<longrightarrow> index_key h n \<noteq> None) \<and>
      inj_on (index_key h) {n. reachable h 0 n \<and> indexed h n} \<and>
      create_selector_map h 0 = Some (Inr [(KNum 0, 1), (KNum 1, 3)]) \<and>
      card {n. reachable h 0 n \<and> indexed h n} = 2"
proof -
  obtain h where p: "parse_node indexed_main None [] = Inr (Some 0, h)"
    and l: "length h = 4"
    and t: "tree_nodes (length h) h 0 = Some [0, 1, 2, 3]"
    and k: "index_key h 0 = None" "index_key h 1 = Some (KNum 0)" "index_key h 2 = None"
      "index_key h 3 = Some (KNum 1)"
    and i: "\<not> indexed h 0" "indexed h 1" "\<not> indexed h 2" "indexed h 3"
    and c: "create_selector_map h 0 = Some (Inr [(KNum 0, 1), (KNum 1, 3)])"
    by (simp add: parse_defs index_defs numeral_eq_Suc)
  from wf_parse(1) [OF p] have wf: "wf_heap h" by simp
  from tree_nodes_distinct [OF wf t] have r: "{n. reachable h 0 n} = {0, 1, 2, 3}" by simp
  then have rr: "reachable h 0 n \<longleftrightarrow> n \<in> {0, 1, 2, 3}" for n by blast
  from i have S: "{n. reachable h 0 n \<and> indexed h n} = {1, 3}"
    unfolding rr by auto
  from k i have hk: "\<forall>n. reachable h 0 n \<and> indexed h n \<longrightarrow> index_key h n \<noteq> None"
    unfolding rr by auto
  from k have inj: "inj_on (index_key h) {n. reachable h 0 n \<and> indexed h n}"
    unfolding S by simp
  from l have pos: "0 < length h" by simp
  from selector_map_entries [OF wf pos hk inj] c S p wf pos hk inj show ?thesis
    by (intro exI [of _ h]) simp
qed


text \<open>
  C10. On a finished tree whose non-null \<^verbatim>\<open>highlight_index\<close> values can be dict keys,
  unique or not, \<^verbatim>\<open>_create_selector_map\<close> succeeds. A key is mapped to the node that
  carries it and is followed in pre-order by no other node carrying it. The size of the
  map is the number of distinct keys, and it is strictly below the number of elements
  with a non-null index as soon as two of them share their index.
\<close>

theorem duplicate_index_last_wins:
  assumes "wf_heap h" and "root < length h"
    and "\<forall>n. reachable h root n \<and> indexed h n \<longrightarrow> index_key h n \<noteq> None"
  shows "\<exists>m ns. create_selector_map h root = Some (Inr m) \<and>
           preorder h root = Some ns \<and> distinct ns \<and> set ns = {n. reachable h root n} \<and>
           (\<forall>k n. map_of m k = Some n \<longleftrightarrow>
              (\<exists>pre post. ns = pre @ n # post \<and> index_key h n = Some k \<and>
                 (\<forall>x\<in>set post. index_key h x \<noteq> Some k))) \<and>
           distinct (map fst m) \<and>
           length m = card {k. \<exists>n. reachable h root n \<and> index_key h n = Some k} \<and>
           (\<not> inj_on (index_key h) {n. reachable h root n \<and> indexed h n} \<longrightarrow>
              length m < card {n. reachable h root n \<and> indexed h n})"
  using assms
proof (cases rule: create_selector_map_preorder)
  case (1 ns)
  let ?S = "{n. reachable h root n \<and> indexed h n}"
  let ?K = "{k. \<exists>n. reachable h root n \<and> index_key h n = Some k}"
  let ?es = "index_entries h ns"
  let ?m = "fold (\<lambda>(k, n). AList.update k n) ?es []"
  have last: "map_of ?m k = Some n \<longleftrightarrow>
      (\<exists>pre post. ns = pre @ n # post \<and> index_key h n = Some k \<and>
         (\<forall>x\<in>set post. index_key h x \<noteq> Some k))" for k n
  proof -
    have "map_of ?m k = map_of (rev ?es) k"
      by (simp add: fold_update_map_of split: option.splits)
    then show ?thesis by (simp only: map_of_rev_index_entries)
  qed
  have d: "distinct (map fst ?m)" by (rule fold_update_distinct) simp
  have "fst ` set ?m = fst ` set ?es" by (simp add: fold_update_keys)
  also have "\<dots> = ?K" using 1(3) by (force simp: set_index_entries)
  finally have keys: "set (map fst ?m) = ?K" by simp
  from d have "card (set (map fst ?m)) = length (map fst ?m)" by (rule distinct_card)
  with keys have len: "length ?m = card ?K" by simp
  from assms(3) 1(3) have S: "?S = {n \<in> set ns. index_key h n \<noteq> None}"
    by (auto dest: index_key_indexed)
  then have fin: "finite ?S" by simp
  have img: "?K = (\<lambda>n. the (index_key h n)) ` ?S"
  proof (intro set_eqI iffI)
    fix k
    assume "k \<in> ?K"
    then obtain n where n: "reachable h root n" "index_key h n = Some k" by blast
    then have "n \<in> ?S" "the (index_key h n) = k" by (simp_all add: index_key_indexed)
    then show "k \<in> (\<lambda>n. the (index_key h n)) ` ?S" by blast
  next
    fix k
    assume "k \<in> (\<lambda>n. the (index_key h n)) ` ?S"
    then obtain n where n: "reachable h root n" "indexed h n" "k = the (index_key h n)"
      by blast
    with assms(3) obtain k' where "index_key h n = Some k'" by auto
    with n show "k \<in> ?K" by auto
  qed
  have less: "card ?K < card ?S" if "\<not> inj_on (index_key h) ?S"
  proof -
    have "\<not> inj_on (\<lambda>n. the (index_key h n)) ?S"
    proof
      assume inj: "inj_on (\<lambda>n. the (index_key h n)) ?S"
      have "inj_on (index_key h) ?S"
      proof (rule inj_onI)
        fix x y
        assume xy: "x \<in> ?S" "y \<in> ?S" and "index_key h x = index_key h y"
        then have "the (index_key h x) = the (index_key h y)" by simp
        from inj_onD [OF inj this xy] show "x = y" .
      qed
      with that show False by simp
    qed
    with fin have "card ((\<lambda>n. the (index_key h n)) ` ?S) \<noteq> card ?S"
      using eq_card_imp_inj_on by blast
    moreover from fin have "card ((\<lambda>n. the (index_key h n)) ` ?S) \<le> card ?S"
      by (rule card_image_le)
    ultimately show ?thesis using img by simp
  qed
  from 1 last d len less show ?thesis by (intro exI [of _ ?m] exI [of _ ns]) simp
qed

theorem duplicate_index_last_wins_witness:
  "\<exists>h. parse_node duplicate_main None [] = Inr (Some 0, h) \<and>
      wf_heap h \<and> 0 < length h \<and>
      (\<forall>n. reachable h 0 n \<and> indexed h n \<longrightarrow> index_key h n \<noteq> None) \<and>
      \<not> inj_on (index_key h) {n. reachable h 0 n \<and> indexed h n} \<and>
      preorder h 0 = Some [0, 1, 2] \<and>
      index_key h 1 = Some (KNum 0) \<and> index_key h 2 = Some (KNum 0) \<and>
      create_selector_map h 0 = Some (Inr [(KNum 0, 2)]) \<and>
      length [(KNum 0, 2 :: nat)] < card {n. reachable h 0 n \<and> indexed h n}"
proof -
  obtain h where p: "parse_node duplicate_main None [] = Inr (Some 0, h)"
    and l: "length h = 3"
    and t: "tree_nodes (length h) h 0 = Some [0, 1, 2]"
    and k: "index_key h 0 = None" "index_key h 1 = Some (KNum 0)"
      "index_key h 2 = Some (KNum 0)"
    and i: "\<not> indexed h 0" "indexed h 1" "indexed h 2"
    and c: "create_selector_map h 0 = Some (Inr [(KNum 0, 2)])"
    by (simp add: parse_defs index_defs numeral_eq_Suc)
  from wf_parse(1) [OF p] have wf: "wf_heap h" by simp
  from tree_nodes_distinct [OF wf t] have r: "{n. reachable h 0 n} = {0, 1, 2}" by simp
  then have rr: "reachable h 0 n \<longleftrightarrow> n \<in> {0, 1, 2}" for n by blast
  from i have S: "{n. reachable h 0 n \<and> indexed h n} = {1, 2}"
    unfolding rr by auto
  from k i have hk: "\<forall>n. reachable h 0 n \<and> indexed h n \<longrightarrow> index_key h n \<noteq> None"
    unfolding rr by auto
  from k have ninj: "\<not> inj_on (index_key h) {n. reachable h 0 n \<and> indexed h n}"
    unfolding S by (auto simp: inj_on_def)
  from l have pos: "0 < length h" by simp
  from duplicate_index_last_wins [OF wf pos hk] c ninj
  have "length [(KNum 0, 2 :: nat)] < card {n. reachable h 0 n \<and> indexed h n}" by auto
  with p wf pos hk ninj t k c show ?thesis
    by (intro exI [of _ h]) (simp add: preorder_def)
qed






end
